theory Spec2Isabelle
  imports Complex_Main "HOL-Library.AList"
begin

section \<open>Errors, attribute dictionaries and graphs\<close>

text \<open>
  The exceptions that can leave \<open>salience\<close>. \<open>NetworkXNotImplemented\<close> is what the
  decorator \<open>not_implemented_for\<close> raises (the specification calls it
  UnsupportedGraphShape), \<open>ZeroDivisionError\<close> is raised by \<open>1./w\<close> (InvalidWeight),
  \<open>KeyError\<close> by \<open>Gn[i][j][weight]\<close> (MissingWeightAttribute), \<open>NodeNotFound\<close> by
  \<open>nx.shortest_path\<close> for a source that is not in the graph, \<open>ValueError\<close> by the
  path search itself, and \<open>IndexError\<close> by an out-of-range index into the matrix.
  \<open>1./w\<close> also raises \<open>OverflowError\<close> for an \<open>int\<close> that is too large for a float and
  \<open>TypeError\<close> for a weight that is no number.
\<close>

datatype error =
  NetworkXNotImplemented | KeyError | ZeroDivisionError | NodeNotFound | ValueError | IndexError
  | OverflowError | TypeError

text \<open>
  The values of edge attributes: a Python \<open>int\<close> (unbounded), a Python \<open>float\<close>, a NumPy
  scalar such as \<open>np.float64\<close>, which may be infinite, and a string, which stands for the
  values that are no numbers. A finite float is modelled by the real number it denotes:
  the rounding of float arithmetic, its overflow and underflow, signed zeros and NaN
  are not modelled.
\<close>

datatype pyval = PyInt int | PyFloat real | NpFloat real | NpInf | PyStr string

text \<open>
  An edge attribute dictionary maps attribute names to values. The dictionaries are the
  only objects the source writes to in place (\<open>Gn[i][j]['proximity'] = 1./w\<close>), so they
  live in a store, addressed by position, and an edge holds the address of its dictionary.
\<close>

type_synonym attrs = "(string \<times> pyval) list"
type_synonym store = "attrs list"
type_synonym matrix = "real list list"
type_synonym paths = "(nat \<times> nat list) list"

text \<open>
  A NetworkX graph object: its class (directed or not, multigraph or not), its nodes in
  the order \<open>G.nodes()\<close> enumerates them and its edges in the order \<open>G.edges()\<close> enumerates
  them, each with the address of its attribute dictionary.
\<close>

record 'a graph =
  directed :: bool
  multigraph :: bool
  nodes :: "'a list"
  edges :: "('a \<times> 'a \<times> nat) list"

definition graph_order :: "'a graph \<Rightarrow> nat" where
  \<comment> \<open>\<open>G.order()\<close>: the number of nodes\<close>
  "graph_order G = length (nodes G)"

definition attrs_at :: "store \<Rightarrow> nat \<Rightarrow> attrs" where
  \<comment> \<open>the dictionary at an address; an address outside the store holds no attribute\<close>
  "attrs_at h a = (if a < length h then h ! a else [])"

text \<open>
  What a graph object always satisfies: the nodes are the keys of a dictionary, the
  endpoints of every edge are nodes, and every edge has a dictionary in the store.
\<close>

definition wf_graph :: "'a graph \<Rightarrow> store \<Rightarrow> bool" where
  "wf_graph G h \<longleftrightarrow>
     distinct (nodes G) \<and>
     list_all (\<lambda>(u, v, a). u \<in> set (nodes G) \<and> v \<in> set (nodes G) \<and> a < length h) (edges G)"

section \<open>The library functions the source calls\<close>

definition node_label :: "'a list \<Rightarrow> 'a \<Rightarrow> nat" where
  \<comment> \<open>\<open>mapping = dict(zip(G.nodes(), range(N)))\<close>; every endpoint of an edge of a graph
      object is a node, so the last case only makes the lookup total\<close>
  "node_label ns n = (case map_of (zip ns [0..<length ns]) n of Some i \<Rightarrow> i | None \<Rightarrow> length ns)"

definition convert_node_labels_to_integers :: "'a graph \<Rightarrow> store \<Rightarrow> nat graph \<times> store" where
  \<comment> \<open>\<open>nx.convert_node_labels_to_integers(G)\<close> returns a copy of \<open>G\<close> of the same class
      with the nodes relabelled \<open>0..N-1\<close> in the order of \<open>G.nodes()\<close>; every edge of the
      copy gets a fresh dictionary holding a copy of the attributes of the original edge\<close>
  "convert_node_labels_to_integers G h =
     (\<lparr> directed = directed G, multigraph = multigraph G,
         nodes = map (node_label (nodes G)) (nodes G),
         edges = map (\<lambda>((u, v, a), k). (node_label (nodes G) u, node_label (nodes G) v, length h + k))
                     (zip (edges G) [0..<length (edges G)]) \<rparr>,
      h @ map (\<lambda>(u, v, a). attrs_at h a) (edges G))"

definition zeros :: "nat \<Rightarrow> matrix" where
  \<comment> \<open>\<open>np.zeros((N,N))\<close>\<close>
  "zeros N = replicate N (replicate N 0)"

definition mat_add :: "matrix \<Rightarrow> matrix \<Rightarrow> matrix" where
  \<comment> \<open>\<open>S + T\<close> on two arrays of the same shape\<close>
  "mat_add S T = map (\<lambda>(s, t). map (\<lambda>(x, y). x + y) (zip s t)) (zip S T)"

definition mat_div :: "matrix \<Rightarrow> nat \<Rightarrow> matrix" where
  \<comment> \<open>\<open>1.*S/N\<close>, entry by entry; an array without entries divides nothing\<close>
  "mat_div S N = map (map (\<lambda>x. 1 * x / real N)) S"

definition float_overflows :: "int \<Rightarrow> bool" where
  \<comment> \<open>the conversion of an \<open>int\<close> to a float raises OverflowError when the nearest double
      would be \<open>2**1024\<close> or beyond\<close>
  "float_overflows i \<longleftrightarrow> 2 ^ 1024 - 2 ^ 970 \<le> \<bar>i\<bar>"

definition reciprocal :: "pyval \<Rightarrow> error + pyval" where
  \<comment> \<open>\<open>1./w\<close>: an \<open>int\<close> is converted to a float first; Python raises for a zero \<open>int\<close>
      or \<open>float\<close>; NumPy does not raise for a zero scalar, it warns and returns \<open>inf\<close>\<close>
  "reciprocal w =
     (case w of
        PyInt i \<Rightarrow>
          if float_overflows i then Inl OverflowError
          else if i = 0 then Inl ZeroDivisionError
          else Inr (PyFloat (1 / real_of_int i))
      | PyFloat x \<Rightarrow> if x = 0 then Inl ZeroDivisionError else Inr (PyFloat (1 / x))
      | NpFloat x \<Rightarrow> if x = 0 then Inr NpInf else Inr (NpFloat (1 / x))
      | NpInf \<Rightarrow> Inr (NpFloat 0)
      | PyStr t \<Rightarrow> Inl TypeError)"

definition shortest_path ::
  "(nat list \<Rightarrow> 'e list \<Rightarrow> nat \<Rightarrow> paths option) \<Rightarrow> nat list \<Rightarrow> 'e list \<Rightarrow> nat \<Rightarrow> error + paths" where
  \<comment> \<open>\<open>nx.shortest_path(Gn, source=r, ...)\<close>: a source that is not a node of the graph is
      rejected first; the search \<open>sp\<close> then returns the dictionary of paths, keyed by
      target, or fails\<close>
  "shortest_path sp ns es r =
     (if r \<notin> set ns then Inl NodeNotFound
      else case sp ns es r of None \<Rightarrow> Inl ValueError | Some ps \<Rightarrow> Inr ps)"

subsection \<open>Breadth-first search\<close>

definition neighbours :: "(nat \<times> nat) list \<Rightarrow> nat \<Rightarrow> nat list" where
  \<comment> \<open>\<open>adj[v]\<close> of an undirected graph whose edges were added in the order of the list\<close>
  "neighbours es v = concat (map (\<lambda>(a, b). if a = v then [b] else if b = v then [a] else []) es)"

definition path_of :: "paths \<Rightarrow> nat \<Rightarrow> nat list" where
  \<comment> \<open>\<open>paths[v]\<close>; the search only reads the path of a node it has reached\<close>
  "path_of ps v = (case map_of ps v of Some p \<Rightarrow> p | None \<Rightarrow> [])"

text \<open>
  The breadth-first search behind \<open>nx.shortest_path\<close> when no weight is given:

  \<^verbatim>\<open>nextlevel = {source: 1}; paths = {source: [source]}\<close>
  \<^verbatim>\<open>while nextlevel:\<close>
  \<^verbatim>\<open>    thislevel = nextlevel; nextlevel = {}\<close>
  \<^verbatim>\<open>    for v in thislevel:\<close>
  \<^verbatim>\<open>        for w in adj[v]:\<close>
  \<^verbatim>\<open>            if w not in paths: paths[w] = paths[v] + [w]; nextlevel[w] = 1\<close>
\<close>

fun visit :: "nat list \<Rightarrow> nat list \<Rightarrow> paths \<times> nat list \<Rightarrow> paths \<times> nat list" where
  "visit pv [] st = st"
| "visit pv (w # ws) (ps, nxt) =
     (if map_of ps w = None then visit pv ws (ps @ [(w, pv @ [w])], nxt @ [w])
      else visit pv ws (ps, nxt))"

fun bfs_level :: "(nat \<times> nat) list \<Rightarrow> nat list \<Rightarrow> paths \<times> nat list \<Rightarrow> paths \<times> nat list" where
  "bfs_level es [] st = st"
| "bfs_level es (v # vs) (ps, nxt) =
     bfs_level es vs (visit (path_of ps v) (neighbours es v) (ps, nxt))"

definition endpoints :: "(nat \<times> nat) list \<Rightarrow> nat set" where
  "endpoints es = fst ` set es \<union> snd ` set es"

lemma neighbours_endpoints: "set (neighbours es v) \<subseteq> endpoints es"
  by (auto simp: neighbours_def endpoints_def split: if_splits) force+

definition grows :: "nat set \<Rightarrow> paths \<Rightarrow> paths \<times> nat list \<Rightarrow> bool" where
  "grows U ps0 st \<longleftrightarrow>
     fst ` set (fst st) = fst ` set ps0 \<union> set (snd st) \<and> set (snd st) \<inter> fst ` set ps0 = {} \<and> set (snd st) \<subseteq> U"

lemma visit_grows:
  "grows U ps0 st \<Longrightarrow> set ws \<subseteq> U \<Longrightarrow> grows U ps0 (visit pv ws st)"
proof (induction pv ws st rule: visit.induct)
  case (1 pv st)
  then show ?case by simp
next
  case (2 pv w ws ps nxt)
  show ?case
  proof (cases "map_of ps w = None")
    case True
    then have "w \<notin> fst ` set ps" by (simp add: map_of_eq_None_iff)
    with 2 True show ?thesis by (auto simp: grows_def)
  next
    case False
    with 2 show ?thesis by auto
  qed
qed

lemma bfs_level_grows:
  "grows U ps0 st \<Longrightarrow> endpoints es \<subseteq> U \<Longrightarrow> grows U ps0 (bfs_level es vs st)"
proof (induction es vs st rule: bfs_level.induct)
  case (1 es st)
  then show ?case by simp
next
  case (2 es v vs ps nxt)
  have "set (neighbours es v) \<subseteq> U" using neighbours_endpoints 2(3) by blast
  with 2 show ?case by (simp add: visit_grows)
qed

function bfs_loop :: "(nat \<times> nat) list \<Rightarrow> paths \<Rightarrow> nat list \<Rightarrow> paths" where
  "bfs_loop es ps lvl =
     (if lvl = [] then ps
      else case bfs_level es lvl (ps, []) of (ps', nxt) \<Rightarrow> bfs_loop es ps' nxt)"
  by pat_completeness auto

termination
proof (relation "measures [\<lambda>(es, ps, lvl). card (endpoints es - fst ` set ps), \<lambda>(es, ps, lvl). length lvl]")
  show "wf (measures [\<lambda>(es, ps, lvl). card (endpoints es - fst ` set ps), \<lambda>(es, ps, lvl). length lvl])"
    by simp
next
  fix es :: "(nat \<times> nat) list" and ps :: paths and lvl ps' nxt
  assume lvl: "lvl \<noteq> []" and p: "(ps', nxt) = bfs_level es lvl (ps, [])"
  have "grows (endpoints es) ps (ps, [])" by (simp add: grows_def)
  then have g: "grows (endpoints es) ps (ps', nxt)"
    using bfs_level_grows[of "endpoints es" ps "(ps, [])" es lvl] p by simp
  have fin: "finite (endpoints es)" by (simp add: endpoints_def)
  show "((es, ps', nxt), (es, ps, lvl))
          \<in> measures [\<lambda>(es, ps, lvl). card (endpoints es - fst ` set ps), \<lambda>(es, ps, lvl). length lvl]"
  proof (cases "nxt = []")
    case True
    with g have "fst ` set ps' = fst ` set ps" by (simp add: grows_def)
    with True lvl show ?thesis by simp
  next
    case False
    then obtain w where w: "w \<in> set nxt" by (cases nxt) auto
    with g have "w \<in> endpoints es" "w \<notin> fst ` set ps" "fst ` set ps \<subseteq> fst ` set ps'" "w \<in> fst ` set ps'"
      by (auto simp: grows_def)
    then have "endpoints es - fst ` set ps' \<subset> endpoints es - fst ` set ps" by blast
    then have "card (endpoints es - fst ` set ps') < card (endpoints es - fst ` set ps)"
      using fin by (simp add: psubset_card_mono)
    then show ?thesis by simp
  qed
qed

definition bfs :: "nat list \<Rightarrow> (nat \<times> nat) list \<Rightarrow> nat \<Rightarrow> paths option" where
  "bfs ns es r = Some (bfs_loop es [(r, [r])] [r])"

subsection \<open>Search with weights\<close>

text \<open>
  The search behind \<open>nx.shortest_path\<close> when a weight is given (Dijkstra's algorithm):

  \<^verbatim>\<open>dist = {}; seen = {source: 0}; paths = {source: [source]}\<close>
  \<^verbatim>\<open>fringe = [(0, next(c), source)]\<close>
  \<^verbatim>\<open>while fringe:\<close>
  \<^verbatim>\<open>    (d, _, v) = pop(fringe)\<close>
  \<^verbatim>\<open>    if v in dist: continue\<close>
  \<^verbatim>\<open>    dist[v] = d\<close>
  \<^verbatim>\<open>    for u, e in adj[v].items():\<close>
  \<^verbatim>\<open>        vu_dist = dist[v] + e.get(weight, 1)\<close>
  \<^verbatim>\<open>        if u in dist:\<close>
  \<^verbatim>\<open>            if vu_dist < dist[u]: raise ValueError('Contradictory paths found:', 'negative weights?')\<close>
  \<^verbatim>\<open>        elif u not in seen or vu_dist < seen[u]:\<close>
  \<^verbatim>\<open>            seen[u] = vu_dist; push(fringe, (vu_dist, next(c), u)); paths[u] = paths[v] + [u]\<close>

  The state is the fringe, \<open>dist\<close>, \<open>seen\<close>, \<open>paths\<close> and the counter \<open>c\<close>; the result is
  \<open>paths\<close>, or nothing when the search raises. A distance is a sum of weights, finite
  or infinite.
\<close>

datatype xreal = Fin real | Inf

fun xadd :: "xreal \<Rightarrow> xreal \<Rightarrow> xreal" where
  "xadd (Fin a) (Fin b) = Fin (a + b)"
| "xadd a b = Inf"

fun xless :: "xreal \<Rightarrow> xreal \<Rightarrow> bool" where
  "xless (Fin a) (Fin b) \<longleftrightarrow> a < b"
| "xless (Fin a) Inf \<longleftrightarrow> True"
| "xless Inf b \<longleftrightarrow> False"

definition number_value :: "pyval \<Rightarrow> xreal option" where
  \<comment> \<open>the number a weight stands for in \<open>dist[v] + cost\<close>; a string makes the sum raise\<close>
  "number_value w =
     (case w of PyInt i \<Rightarrow> Some (Fin (real_of_int i)) | PyFloat x \<Rightarrow> Some (Fin x)
      | NpFloat x \<Rightarrow> Some (Fin x) | NpInf \<Rightarrow> Some Inf | PyStr t \<Rightarrow> None)"

type_synonym fringe = "(xreal \<times> nat \<times> nat) list"
type_synonym dstate = "fringe \<times> (nat \<times> xreal) list \<times> (nat \<times> xreal) list \<times> paths \<times> nat"

definition weighted_neighbours :: "(nat \<times> nat \<times> pyval) list \<Rightarrow> nat \<Rightarrow> (nat \<times> pyval) list" where
  \<comment> \<open>\<open>adj[v].items()\<close>, each neighbour with the value of \<open>e.get(weight, 1)\<close>\<close>
  "weighted_neighbours es v =
     concat (map (\<lambda>(a, b, c). if a = v then [(b, c)] else if b = v then [(a, c)] else []) es)"

definition heap_before :: "xreal \<times> nat \<times> nat \<Rightarrow> xreal \<times> nat \<times> nat \<Rightarrow> bool" where
  \<comment> \<open>the order of the tuples \<open>(distance, c, node)\<close> in the heap; \<open>c\<close> is unique\<close>
  "heap_before x y \<longleftrightarrow> xless (fst x) (fst y) \<or> (fst x = fst y \<and> fst (snd x) < fst (snd y))"

fun heap_min :: "xreal \<times> nat \<times> nat \<Rightarrow> fringe \<Rightarrow> xreal \<times> nat \<times> nat" where
  \<comment> \<open>the tuple that \<open>pop(fringe)\<close> returns: the least one\<close>
  "heap_min m [] = m"
| "heap_min m (x # xs) = heap_min (if heap_before x m then x else m) xs"

fun relax :: "nat \<Rightarrow> xreal \<Rightarrow> (nat \<times> pyval) list \<Rightarrow> dstate \<Rightarrow> dstate option" where
  \<comment> \<open>the loop over \<open>adj[v].items()\<close> for the node \<open>v\<close> at distance \<open>d\<close>\<close>
  "relax v d [] st = Some st"
| "relax v d ((u, cost) # nb) (fr, dn, seen, ps, c) =
     (case number_value cost of
        None \<Rightarrow> None
      | Some x \<Rightarrow>
          (case map_of dn u of
             Some ud \<Rightarrow>
               if xless (xadd d x) ud then None else relax v d nb (fr, dn, seen, ps, c)
           | None \<Rightarrow>
               if (case map_of seen u of None \<Rightarrow> True | Some su \<Rightarrow> xless (xadd d x) su)
               then relax v d nb (fr @ [(xadd d x, c, u)], dn, AList.update u (xadd d x) seen,
                                  AList.update u (path_of ps v @ [u]) ps, Suc c)
               else relax v d nb (fr, dn, seen, ps, c)))"

definition fringe_nodes :: "fringe \<Rightarrow> nat set" where
  "fringe_nodes fr = (\<lambda>x. snd (snd x)) ` set fr"

definition weighted_endpoints :: "(nat \<times> nat \<times> pyval) list \<Rightarrow> nat set" where
  "weighted_endpoints es = (\<lambda>(a, b, c). a) ` set es \<union> (\<lambda>(a, b, c). b) ` set es"

lemma weighted_neighbours_endpoints: "fst ` set (weighted_neighbours es v) \<subseteq> weighted_endpoints es"
  by (auto simp: weighted_neighbours_def weighted_endpoints_def split: if_splits) force+

lemma heap_min_in: "heap_min m xs \<in> set (m # xs)"
  by (induction m xs rule: heap_min.induct) auto

lemma fringe_nodes_mono: "set xs \<subseteq> set ys \<Longrightarrow> fringe_nodes xs \<subseteq> fringe_nodes ys"
  by (auto simp: fringe_nodes_def)

lemma fringe_nodes_push: "fringe_nodes (fr @ [(x, c, u)]) = insert u (fringe_nodes fr)"
  by (auto simp: fringe_nodes_def)

lemma relax_frame:
  "relax v d nb st = Some st' \<Longrightarrow>
     fst (snd st') = fst (snd st) \<and> fringe_nodes (fst st') \<subseteq> fringe_nodes (fst st) \<union> fst ` set nb"
proof (induction v d nb st arbitrary: st' rule: relax.induct)
  case (1 v d st)
  then show ?case by simp
next
  case (2 v d u cost nb fr dn seen ps c)
  from "2.prems" obtain x where x: "number_value cost = Some x"
    by (auto split: option.splits)
  let ?pushed = "(fr @ [(xadd d x, c, u)], dn, AList.update u (xadd d x) seen,
                  AList.update u (path_of ps v @ [u]) ps, Suc c)"
  from "2.prems" x consider
      (same) "relax v d nb (fr, dn, seen, ps, c) = Some st'"
        "(\<exists>ud. map_of dn u = Some ud \<and> \<not> xless (xadd d x) ud) \<or>
         (map_of dn u = None \<and> \<not> (case map_of seen u of None \<Rightarrow> True | Some su \<Rightarrow> xless (xadd d x) su))"
    | (push) "relax v d nb ?pushed = Some st'" "map_of dn u = None"
        "case map_of seen u of None \<Rightarrow> True | Some su \<Rightarrow> xless (xadd d x) su"
    by (auto split: option.splits if_splits)
  then show ?case
  proof cases
    case same
    then have "fst (snd st') = fst (snd (fr, dn, seen, ps, c)) \<and>
        fringe_nodes (fst st') \<subseteq> fringe_nodes (fst (fr, dn, seen, ps, c)) \<union> fst ` set nb"
      using "2.IH" x by blast
    then show ?thesis by auto
  next
    case push
    then have "fst (snd st') = fst (snd ?pushed) \<and>
        fringe_nodes (fst st') \<subseteq> fringe_nodes (fst ?pushed) \<union> fst ` set nb"
      using "2.IH" x by blast
    then show ?thesis by (auto simp: fringe_nodes_push)
  qed
qed

lemma dijkstra_skip_decreases:
  "card ((weighted_endpoints es \<union> fringe_nodes (remove1 m fr)) - D)
     \<le> card ((weighted_endpoints es \<union> fringe_nodes fr) - D)"
proof -
  have "fringe_nodes (remove1 m fr) \<subseteq> fringe_nodes fr"
    by (intro fringe_nodes_mono set_remove1_subset)
  then have "(weighted_endpoints es \<union> fringe_nodes (remove1 m fr)) - D
               \<subseteq> (weighted_endpoints es \<union> fringe_nodes fr) - D" by blast
  moreover have "finite ((weighted_endpoints es \<union> fringe_nodes fr) - D)"
    by (simp add: weighted_endpoints_def fringe_nodes_def)
  ultimately show ?thesis by (intro card_mono)
qed

lemma remove1_shorter: "m \<in> set fr \<Longrightarrow> length (remove1 m fr) < length fr"
  using length_pos_if_in_set[of m fr] by (simp add: length_remove1)

lemma dijkstra_relax_decreases:
  assumes r: "relax v d (weighted_neighbours es v) (remove1 (d, k, v) fr, dn @ [(v, d)], seen, ps, c) = Some st"
    and m: "(d, k, v) \<in> set fr" and v: "map_of dn v = None"
  shows "card ((weighted_endpoints es \<union> fringe_nodes (fst st)) - fst ` set (fst (snd st)))
           < card ((weighted_endpoints es \<union> fringe_nodes fr) - fst ` set dn)"
proof -
  from relax_frame[OF r] have d: "fst (snd st) = dn @ [(v, d)]"
    and f: "fringe_nodes (fst st) \<subseteq> fringe_nodes (remove1 (d, k, v) fr) \<union> fst ` set (weighted_neighbours es v)"
    by simp_all
  have "fringe_nodes (remove1 (d, k, v) fr) \<subseteq> fringe_nodes fr"
    by (intro fringe_nodes_mono set_remove1_subset)
  with f weighted_neighbours_endpoints[of es v]
  have sub: "fringe_nodes (fst st) \<subseteq> weighted_endpoints es \<union> fringe_nodes fr" by blast
  have vin: "v \<in> fringe_nodes fr" using m by (force simp: fringe_nodes_def)
  have vout: "v \<notin> fst ` set dn" using v by (simp add: map_of_eq_None_iff)
  have "(weighted_endpoints es \<union> fringe_nodes (fst st)) - fst ` set (fst (snd st))
          \<subset> (weighted_endpoints es \<union> fringe_nodes fr) - fst ` set dn"
    using sub vin vout d by auto
  moreover have "finite ((weighted_endpoints es \<union> fringe_nodes fr) - fst ` set dn)"
    by (simp add: weighted_endpoints_def fringe_nodes_def)
  ultimately show ?thesis by (rule psubset_card_mono[rotated])
qed

function dijkstra_loop :: "(nat \<times> nat \<times> pyval) list \<Rightarrow> dstate \<Rightarrow> paths option" where
  "dijkstra_loop es (fr, dn, seen, ps, c) =
     (case fr of
        [] \<Rightarrow> Some ps
      | x # xs \<Rightarrow>
          (case heap_min x xs of (d, k, v) \<Rightarrow>
             if map_of dn v \<noteq> None
             then dijkstra_loop es (remove1 (d, k, v) fr, dn, seen, ps, c)
             else (case relax v d (weighted_neighbours es v)
                          (remove1 (d, k, v) fr, dn @ [(v, d)], seen, ps, c) of
                     None \<Rightarrow> None
                   | Some st \<Rightarrow> dijkstra_loop es st)))"
  by pat_completeness auto

termination
  apply (relation "measures [\<lambda>(es, fr, dn, seen, ps, c). card ((weighted_endpoints es \<union> fringe_nodes fr) - fst ` set dn),
                       \<lambda>(es, fr, dn, seen, ps, c). length fr]")
    apply simp
  subgoal for es fr dn seen ps c x xs d rest k v
    using dijkstra_skip_decreases[of es "(d, k, v)" fr "fst ` set dn"]
      remove1_shorter[of "(d, k, v)" fr] heap_min_in[of x xs]
    by auto
  subgoal for es fr dn seen ps c x xs d rest k v st
    using dijkstra_relax_decreases[of v d es k fr dn seen ps c st] heap_min_in[of x xs]
    by (cases st) auto
  done

definition dijkstra :: "nat list \<Rightarrow> (nat \<times> nat \<times> pyval) list \<Rightarrow> nat \<Rightarrow> paths option" where
  "dijkstra ns es r = dijkstra_loop es ([(Fin 0, 0, r)], [], [(r, Fin 0)], [(r, [r])], 1)"

section \<open>The shortest-path tree of a reference node\<close>

definition set_one :: "matrix \<Rightarrow> nat \<Rightarrow> nat \<Rightarrow> error + matrix" where
  \<comment> \<open>\<open>T[u][v]=1\<close>\<close>
  "set_one T u v =
     (if u < length T \<and> v < length (T ! u) then Inr (T[u := (T ! u)[v := 1]])
      else Inl IndexError)"

fun fill_path :: "nat list \<Rightarrow> matrix \<Rightarrow> error + matrix" where
  \<comment> \<open>\<open>for i in range(len(path)-1): T[path[i]][path[i+1]]=1\<close>\<close>
  "fill_path (u # v # p) T =
     (case set_one T u v of Inl e \<Rightarrow> Inl e | Inr T' \<Rightarrow> fill_path (v # p) T')"
| "fill_path p T = Inr T"

fun fill_paths :: "paths \<Rightarrow> matrix \<Rightarrow> error + matrix" where
  \<comment> \<open>\<open>for k, path in paths.items(): ...\<close>\<close>
  "fill_paths [] T = Inr T"
| "fill_paths ((k, p) # ps) T =
     (case fill_path p T of Inl e \<Rightarrow> Inl e | Inr T' \<Rightarrow> fill_paths ps T')"

fun proximity_loop :: "string \<Rightarrow> (nat \<times> nat \<times> nat) list \<Rightarrow> store \<Rightarrow> (error + unit) \<times> store" where
  \<comment> \<open>\<open>for i,j in Gn.edges(): w = Gn[i][j][weight]; Gn[i][j]['proximity'] = 1./w\<close>\<close>
  "proximity_loop weight [] h = (Inr (), h)"
| "proximity_loop weight ((i, j, a) # es) h =
     (case map_of (attrs_at h a) weight of
        None \<Rightarrow> (Inl KeyError, h)
      | Some w \<Rightarrow>
          (case reciprocal w of
             Inl e \<Rightarrow> (Inl e, h)
           | Inr p \<Rightarrow> proximity_loop weight es (h[a := AList.update ''proximity'' p (attrs_at h a)])))"

definition unweighted_edges :: "(nat \<times> nat \<times> nat) list \<Rightarrow> (nat \<times> nat) list" where
  \<comment> \<open>what a search without weights reads of the edges: their endpoints\<close>
  "unweighted_edges es = map (\<lambda>(i, j, a). (i, j)) es"

definition proximity_edges :: "store \<Rightarrow> (nat \<times> nat \<times> nat) list \<Rightarrow> (nat \<times> nat \<times> pyval) list" where
  \<comment> \<open>what a search with \<open>weight='proximity'\<close> reads of the edges: their endpoints and
      \<open>data.get('proximity', 1)\<close>\<close>
  "proximity_edges h es =
     map (\<lambda>(i, j, a). (i, j, case map_of (attrs_at h a) ''proximity'' of Some d \<Rightarrow> d | None \<Rightarrow> PyInt 1)) es"

definition SPT_unw ::
  "(nat list \<Rightarrow> (nat \<times> nat) list \<Rightarrow> nat \<Rightarrow> paths option) \<Rightarrow> 'a graph \<Rightarrow> nat \<Rightarrow> store
     \<Rightarrow> (error + matrix) \<times> store" where
  \<comment> \<open>\<open>_SPT(G, r)\<close> of salience_unw.py\<close>
  "SPT_unw sp G r h =
     (if directed G then (Inl NetworkXNotImplemented, h)
      else if multigraph G then (Inl NetworkXNotImplemented, h)
      else
        let (Gn, h1) = convert_node_labels_to_integers G h;
            N = graph_order Gn;
            T = zeros N
        in case shortest_path sp (nodes Gn) (unweighted_edges (edges Gn)) r of
             Inl e \<Rightarrow> (Inl e, h1)
           | Inr ps \<Rightarrow> (fill_paths ps T, h1))"

definition SPT ::
  "(nat list \<Rightarrow> (nat \<times> nat \<times> pyval) list \<Rightarrow> nat \<Rightarrow> paths option) \<Rightarrow> 'a graph \<Rightarrow> nat \<Rightarrow> string
     \<Rightarrow> store \<Rightarrow> (error + matrix) \<times> store" where
  \<comment> \<open>\<open>_SPT(G, r, weight)\<close> of salience.py\<close>
  "SPT sp G r weight h =
     (if directed G then (Inl NetworkXNotImplemented, h)
      else if multigraph G then (Inl NetworkXNotImplemented, h)
      else
        let (Gn, h1) = convert_node_labels_to_integers G h;
            N = graph_order Gn;
            T = zeros N
        in case proximity_loop weight (edges Gn) h1 of
             (Inl e, h2) \<Rightarrow> (Inl e, h2)
           | (Inr u, h2) \<Rightarrow>
               (case shortest_path sp (nodes Gn) (proximity_edges h2 (edges Gn)) r of
                  Inl e \<Rightarrow> (Inl e, h2)
                | Inr ps \<Rightarrow> (fill_paths ps T, h2)))"

section \<open>The salience matrix\<close>

fun salience_unw_loop ::
  "(nat list \<Rightarrow> (nat \<times> nat) list \<Rightarrow> nat \<Rightarrow> paths option) \<Rightarrow> 'a graph \<Rightarrow> nat list \<Rightarrow> matrix
     \<Rightarrow> store \<Rightarrow> (error + matrix) \<times> store" where
  \<comment> \<open>\<open>for n in Gn.nodes(): S = S + _SPT(G,n)\<close>\<close>
  "salience_unw_loop sp G [] S h = (Inr S, h)"
| "salience_unw_loop sp G (n # ns) S h =
     (case SPT_unw sp G n h of
        (Inl e, h') \<Rightarrow> (Inl e, h')
      | (Inr T, h') \<Rightarrow> salience_unw_loop sp G ns (mat_add S T) h')"

definition salience_unw ::
  "(nat list \<Rightarrow> (nat \<times> nat) list \<Rightarrow> nat \<Rightarrow> paths option) \<Rightarrow> 'a graph \<Rightarrow> store
     \<Rightarrow> (error + matrix) \<times> store" where
  \<comment> \<open>\<open>salience(G)\<close> of salience_unw.py\<close>
  "salience_unw sp G h =
     (let N = graph_order G;
          S = zeros N;
          (Gn, h1) = convert_node_labels_to_integers G h
      in case salience_unw_loop sp G (nodes Gn) S h1 of
           (Inl e, h2) \<Rightarrow> (Inl e, h2)
         | (Inr S', h2) \<Rightarrow> (Inr (mat_div S' N), h2))"

fun salience_loop ::
  "(nat list \<Rightarrow> (nat \<times> nat \<times> pyval) list \<Rightarrow> nat \<Rightarrow> paths option) \<Rightarrow> 'a graph \<Rightarrow> string \<Rightarrow> nat list
     \<Rightarrow> matrix \<Rightarrow> store \<Rightarrow> (error + matrix) \<times> store" where
  \<comment> \<open>\<open>for n in Gn.nodes(): S = S + _SPT(G,n,weight=weight)\<close>\<close>
  "salience_loop sp G weight [] S h = (Inr S, h)"
| "salience_loop sp G weight (n # ns) S h =
     (case SPT sp G n weight h of
        (Inl e, h') \<Rightarrow> (Inl e, h')
      | (Inr T, h') \<Rightarrow> salience_loop sp G weight ns (mat_add S T) h')"

definition salience ::
  "(nat list \<Rightarrow> (nat \<times> nat \<times> pyval) list \<Rightarrow> nat \<Rightarrow> paths option) \<Rightarrow> 'a graph \<Rightarrow> string \<Rightarrow> store
     \<Rightarrow> (error + matrix) \<times> store" where
  \<comment> \<open>\<open>salience(G, weight)\<close> of salience.py\<close>
  "salience sp G weight h =
     (let N = graph_order G;
          S = zeros N;
          (Gn, h1) = convert_node_labels_to_integers G h
      in case salience_loop sp G weight (nodes Gn) S h1 of
           (Inl e, h2) \<Rightarrow> (Inl e, h2)
         | (Inr S', h2) \<Rightarrow> (Inr (mat_div S' N), h2))"

definition salience_divisions ::
  "(nat list \<Rightarrow> (nat \<times> nat \<times> pyval) list \<Rightarrow> nat \<Rightarrow> paths option) \<Rightarrow> 'a graph \<Rightarrow> string \<Rightarrow> store
     \<Rightarrow> nat list" where
  \<comment> \<open>the divisors of the array divisions that \<open>salience(G, weight)\<close> evaluates: the last
      statement \<open>S = 1.*S/N\<close> is reached whenever the loop ends, and no test of \<open>N\<close>
      precedes it\<close>
  "salience_divisions sp G weight h =
     (let N = graph_order G;
          S = zeros N;
          (Gn, h1) = convert_node_labels_to_integers G h
      in case salience_loop sp G weight (nodes Gn) S h1 of
           (Inl e, h2) \<Rightarrow> []
         | (Inr S', h2) \<Rightarrow> [N])"

definition salience_unw_divisions ::
  "(nat list \<Rightarrow> (nat \<times> nat) list \<Rightarrow> nat \<Rightarrow> paths option) \<Rightarrow> 'a graph \<Rightarrow> store \<Rightarrow> nat list" where
  \<comment> \<open>the same for \<open>salience(G)\<close> of salience_unw.py\<close>
  "salience_unw_divisions sp G h =
     (let N = graph_order G;
          S = zeros N;
          (Gn, h1) = convert_node_labels_to_integers G h
      in case salience_unw_loop sp G (nodes Gn) S h1 of
           (Inl e, h2) \<Rightarrow> []
         | (Inr S', h2) \<Rightarrow> [N])"

section \<open>Example graphs\<close>

definition path3 :: "nat graph" where
  \<comment> \<open>the path graph on the nodes 0-1-2, edges (0,1) and (1,2)\<close>
  "path3 = \<lparr> directed = False, multigraph = False, nodes = [0, 1, 2],
             edges = [(0, 1, 0), (1, 2, 1)] \<rparr>"

definition path2 :: "nat graph" where
  \<comment> \<open>the graph with the nodes 0, 1 and the edge (0,1)\<close>
  "path2 = \<lparr> directed = False, multigraph = False, nodes = [0, 1], edges = [(0, 1, 0)] \<rparr>"

definition path3_store :: store where
  \<comment> \<open>the attribute dictionaries of the two edges of \<open>path3\<close>: weights 2 and 4\<close>
  "path3_store = [[(''weight'', PyInt 2)], [(''weight'', PyInt 4)]]"

definition path3_salience :: matrix where
  \<comment> \<open>what both variants return for \<open>path3\<close>\<close>
  "path3_salience = [[0, 1/3, 0], [2/3, 0, 2/3], [0, 1/3, 0]]"

definition empty_digraph :: "nat graph" where
  \<comment> \<open>a directed graph without nodes\<close>
  "empty_digraph = \<lparr> directed = True, multigraph = False, nodes = [], edges = [] \<rparr>"

definition one_node_digraph :: "nat graph" where
  \<comment> \<open>a directed graph with one node and a loop on it\<close>
  "one_node_digraph = \<lparr> directed = True, multigraph = False, nodes = [7], edges = [(7, 7, 0)] \<rparr>"

definition empty_graph :: "nat graph" where
  \<comment> \<open>the undirected graph without nodes\<close>
  "empty_graph = \<lparr> directed = False, multigraph = False, nodes = [], edges = [] \<rparr>"

definition one_node_graph :: "nat graph" where
  \<comment> \<open>the undirected graph with one node and no edge\<close>
  "one_node_graph = \<lparr> directed = False, multigraph = False, nodes = [7], edges = [] \<rparr>"

definition abc_graph :: "string graph" where
  \<comment> \<open>the path graph a-b-c, with strings for nodes\<close>
  "abc_graph = \<lparr> directed = False, multigraph = False, nodes = [''a'', ''b'', ''c''],
                 edges = [(''a'', ''b'', 0), (''b'', ''c'', 1)] \<rparr>"

definition zero_digraph_store :: store where
  \<comment> \<open>the loop of \<open>one_node_digraph\<close> with weight 0\<close>
  "zero_digraph_store = [[(''weight'', PyInt 0)]]"

definition numpy_zero_store :: store where
  \<comment> \<open>the edge of \<open>path2\<close> with the weight \<open>np.float64(0.0)\<close>\<close>
  "numpy_zero_store = [[(''weight'', NpFloat 0)]]"

definition missing_weight_store :: store where
  \<comment> \<open>the edges of \<open>path3\<close>: the first without a weight, the second with weight 0\<close>
  "missing_weight_store = [[], [(''weight'', PyInt 0)]]"

definition huge_weight_store :: store where
  \<comment> \<open>the edges of \<open>path3\<close>: the first with the weight \<open>10**400\<close>, the second with weight 0\<close>
  "huge_weight_store = [[(''weight'', PyInt (10 ^ 400))], [(''weight'', PyInt 0)]]"

definition zero_weight_store :: store where
  \<comment> \<open>the edges of \<open>path3\<close>: weight 2 and weight \<open>0.0\<close>\<close>
  "zero_weight_store = [[(''weight'', PyInt 2)], [(''weight'', PyFloat 0)]]"

section \<open>Auxiliary facts\<close>

definition mat_ok :: "nat \<Rightarrow> matrix \<Rightarrow> bool" where
  "mat_ok N T \<longleftrightarrow> length T = N \<and> list_all (\<lambda>row. length row = N) T"

definition marked :: "paths \<Rightarrow> nat \<Rightarrow> nat \<Rightarrow> bool" where
  "marked ps i j \<longleftrightarrow> list_ex (\<lambda>(k, p). (i, j) \<in> set (zip p (tl p))) ps"

lemma mat_ok_nth: "mat_ok N T \<Longrightarrow> i < N \<Longrightarrow> length (T ! i) = N"
  by (simp add: mat_ok_def list_all_length)

lemma mat_ok_zeros: "mat_ok N (zeros N)"
  by (simp add: mat_ok_def zeros_def list_all_length)

lemma zeros_nth: "i < N \<Longrightarrow> j < N \<Longrightarrow> zeros N ! i ! j = 0"
  by (simp add: zeros_def)

lemma set_one_ok:
  assumes "set_one T u v = Inr T'" "mat_ok N T"
  shows "mat_ok N T'"
  using assms
  by (auto simp: set_one_def mat_ok_def list_all_length nth_list_update split: if_splits)

lemma set_one_nth:
  assumes "set_one T u v = Inr T'" "mat_ok N T" "i < N" "j < N"
  shows "T' ! i ! j = (if i = u \<and> j = v then 1 else T ! i ! j)"
  using assms
  by (auto simp: set_one_def mat_ok_def list_all_length nth_list_update split: if_splits)

lemma fill_path_ok:
  "fill_path p T = Inr T' \<Longrightarrow> mat_ok N T \<Longrightarrow> mat_ok N T'"
proof (induction p T rule: fill_path.induct)
  case (1 u v p T)
  then show ?case by (auto split: sum.splits dest: set_one_ok)
qed simp_all

lemma fill_path_nth:
  "fill_path p T = Inr T' \<Longrightarrow> mat_ok N T \<Longrightarrow> i < N \<Longrightarrow> j < N \<Longrightarrow>
     T' ! i ! j = (if (i, j) \<in> set (zip p (tl p)) then 1 else T ! i ! j)"
proof (induction p T rule: fill_path.induct)
  case (1 u v p T)
  from 1(2) obtain T1 where s: "set_one T u v = Inr T1" and f: "fill_path (v # p) T1 = Inr T'"
    by (auto split: sum.splits)
  have ok1: "mat_ok N T1" using s 1(3) by (rule set_one_ok)
  have "T' ! i ! j = (if (i, j) \<in> set (zip (v # p) (tl (v # p))) then 1 else T1 ! i ! j)"
    using 1(1)[OF s f ok1 1(4) 1(5)] .
  moreover have "T1 ! i ! j = (if i = u \<and> j = v then 1 else T ! i ! j)"
    using set_one_nth[OF s 1(3) 1(4) 1(5)] .
  ultimately show ?case by auto
qed simp_all

lemma fill_paths_ok:
  "fill_paths ps T = Inr T' \<Longrightarrow> mat_ok N T \<Longrightarrow> mat_ok N T'"
proof (induction ps T rule: fill_paths.induct)
  case (2 k p ps T)
  then show ?case by (auto split: sum.splits dest: fill_path_ok)
qed simp

lemma fill_paths_nth:
  "fill_paths ps T = Inr T' \<Longrightarrow> mat_ok N T \<Longrightarrow> i < N \<Longrightarrow> j < N \<Longrightarrow>
     T' ! i ! j = (if marked ps i j then 1 else T ! i ! j)"
proof (induction ps T rule: fill_paths.induct)
  case (1 T)
  then show ?case by (simp add: marked_def)
next
  case (2 k p ps T)
  from 2(2) obtain T1 where s: "fill_path p T = Inr T1" and f: "fill_paths ps T1 = Inr T'"
    by (auto split: sum.splits)
  have ok1: "mat_ok N T1" using s 2(3) by (rule fill_path_ok)
  have "T' ! i ! j = (if marked ps i j then 1 else T1 ! i ! j)"
    using 2(1)[OF s f ok1 2(4) 2(5)] .
  moreover have "T1 ! i ! j = (if (i, j) \<in> set (zip p (tl p)) then 1 else T ! i ! j)"
    using fill_path_nth[OF s 2(3) 2(4) 2(5)] .
  ultimately show ?case by (auto simp: marked_def)
qed


definition relabelled_nodes :: "'a graph \<Rightarrow> nat list" where
  "relabelled_nodes G = map (node_label (nodes G)) (nodes G)"

definition relabelled_edges :: "'a graph \<Rightarrow> (nat \<times> nat) list" where
  "relabelled_edges G = map (\<lambda>(u, v, a). (node_label (nodes G) u, node_label (nodes G) v)) (edges G)"

definition copied_attrs :: "'a graph \<Rightarrow> store \<Rightarrow> attrs list" where
  "copied_attrs G h = map (\<lambda>(u, v, a). attrs_at h a) (edges G)"

definition edge_proximity :: "string \<Rightarrow> attrs \<Rightarrow> error + pyval" where
  \<comment> \<open>what \<open>w = d[weight]; 1./w\<close> gives for the dictionary \<open>d\<close> of one edge\<close>
  "edge_proximity weight d =
     (case map_of d weight of None \<Rightarrow> Inl KeyError | Some w \<Rightarrow> reciprocal w)"

fun weights_check :: "string \<Rightarrow> attrs list \<Rightarrow> error option" where
  \<comment> \<open>the first exception that the weights of a list of dictionaries raise, if any\<close>
  "weights_check weight [] = None"
| "weights_check weight (d # ds) =
     (case edge_proximity weight d of Inl e \<Rightarrow> Some e | Inr p \<Rightarrow> weights_check weight ds)"

definition with_proximity :: "string \<Rightarrow> attrs \<Rightarrow> attrs" where
  "with_proximity weight d =
     (case edge_proximity weight d of Inr p \<Rightarrow> AList.update ''proximity'' p d | Inl e \<Rightarrow> d)"

lemma convert_nodes [simp]:
  "nodes (fst (convert_node_labels_to_integers G h)) = relabelled_nodes G"
  by (simp add: convert_node_labels_to_integers_def relabelled_nodes_def)

lemma convert_order [simp]:
  "graph_order (fst (convert_node_labels_to_integers G h)) = length (nodes G)"
  by (simp add: graph_order_def relabelled_nodes_def)

lemma convert_store [simp]:
  "snd (convert_node_labels_to_integers G h) = h @ copied_attrs G h"
  by (simp add: convert_node_labels_to_integers_def copied_attrs_def)

lemma convert_unweighted [simp]:
  "unweighted_edges (edges (fst (convert_node_labels_to_integers G h))) = relabelled_edges G"
  by (auto simp: convert_node_labels_to_integers_def unweighted_edges_def relabelled_edges_def
      intro!: nth_equalityI split: prod.splits)

lemma convert_addresses:
  "map (\<lambda>(i, j, a). a) (edges (fst (convert_node_labels_to_integers G h)))
     = [length h..<length h + length (edges G)]"
  by (auto simp: convert_node_labels_to_integers_def intro!: nth_equalityI split: prod.splits)

lemma relabelled_nodes_distinct:
  "distinct ns \<Longrightarrow> map (node_label ns) ns = [0..<length ns]"
proof (rule nth_equalityI)
  show "length (map (node_label ns) ns) = length [0..<length ns]" by simp
next
  fix i assume d: "distinct ns" and "i < length (map (node_label ns) ns)"
  then have i: "i < length ns" by simp
  have "map_of (zip ns [0..<length ns]) (ns ! i) = Some ([0..<length ns] ! i)"
    using d i by (intro map_of_zip_nth) simp_all
  then show "map (node_label ns) ns ! i = [0..<length ns] ! i"
    using i by (simp add: node_label_def)
qed

lemma node_label_less: "n \<in> set ns \<Longrightarrow> node_label ns n < length ns"
proof -
  assume "n \<in> set ns"
  then have "n \<in> fst ` set (zip ns [0..<length ns])"
    by (metis length_upt diff_zero map_fst_zip set_map)
  then obtain i where m: "map_of (zip ns [0..<length ns]) n = Some i"
    by (metis map_of_eq_None_iff not_Some_eq)
  then have "(n, i) \<in> set (zip ns [0..<length ns])" by (rule map_of_SomeD)
  then have "i \<in> set [0..<length ns]" by (rule set_zip_rightD)
  with m show ?thesis by (simp add: node_label_def)
qed

lemma proximity_loop_fresh:
  "map (\<lambda>(i, j, a). a) es = [length pre..<length pre + length ds] \<Longrightarrow>
   fst (proximity_loop weight es (pre @ ds)) =
     (case weights_check weight ds of Some e \<Rightarrow> Inl e | None \<Rightarrow> Inr ())
   \<and> (weights_check weight ds = None \<longrightarrow>
        snd (proximity_loop weight es (pre @ ds)) = pre @ map (with_proximity weight) ds)
   \<and> take (length pre) (snd (proximity_loop weight es (pre @ ds))) = pre"
proof (induction es arbitrary: pre ds)
  case Nil
  have "ds = []" using Nil.prems[symmetric] by auto
  then show ?case by simp
next
  case (Cons e es)
  obtain i j a where e: "e = (i, j, a)" by (cases e)
  from Cons.prems e have a: "a # map (\<lambda>(i, j, a). a) es = [length pre..<length pre + length ds]"
    by simp
  then have ne: "ds \<noteq> []" by (cases ds) auto
  then obtain d ds0 where ds: "ds = d # ds0" by (cases ds) auto
  have "[length pre..<length pre + length ds] = length pre # [Suc (length pre)..<length pre + length ds]"
    using ds by (intro upt_conv_Cons) simp
  with a have "a # map (\<lambda>(i, j, a). a) es = length pre # [Suc (length pre)..<length pre + length ds]"
    by (simp only:)
  then have an: "a = length pre"
    and rest: "map (\<lambda>(i, j, a). a) es = [Suc (length pre)..<Suc (length pre) + length ds0]"
    using ds by (simp_all del: upt_Suc)
  have at: "attrs_at (pre @ d # ds0) (length pre) = d" by (simp add: attrs_at_def)
  have loop: "proximity_loop weight (e # es) (pre @ ds) =
      (case edge_proximity weight d of
         Inl x \<Rightarrow> (Inl x, pre @ ds)
       | Inr p \<Rightarrow> proximity_loop weight es ((pre @ ds)[length pre := AList.update ''proximity'' p d]))"
    using e ds an at by (simp add: edge_proximity_def split: option.splits sum.splits)
  show ?case
  proof (cases "edge_proximity weight d")
    case (Inl x)
    then show ?thesis using loop ds by simp
  next
    case (Inr p)
    let ?d' = "AList.update ''proximity'' p d"
    let ?r = "proximity_loop weight es ((pre @ [?d']) @ ds0)"
    have upd: "(pre @ d # ds0)[length pre := ?d'] = (pre @ [?d']) @ ds0" by simp
    have rest': "map (\<lambda>(i, j, a). a) es = [length (pre @ [?d'])..<length (pre @ [?d']) + length ds0]"
      using rest by simp
    note IH = Cons.IH[OF rest']
    have step: "proximity_loop weight (e # es) (pre @ ds) = ?r"
      using loop Inr ds upd by simp
    have wp: "with_proximity weight d = ?d'" using Inr by (simp add: with_proximity_def)
    have wc: "weights_check weight ds = weights_check weight ds0" using ds Inr by simp
    have t: "take (length pre) (snd ?r) = pre"
    proof -
      have "take (length (pre @ [?d'])) (snd ?r) = pre @ [?d']"
        using IH by blast
      then have "take (length pre) (take (length (pre @ [?d'])) (snd ?r))
          = take (length pre) (pre @ [?d'])" by simp
      then show ?thesis by (simp add: min_def)
    qed
    have f: "fst ?r = (case weights_check weight ds0 of Some e \<Rightarrow> Inl e | None \<Rightarrow> Inr ())"
      using IH by blast
    have s: "weights_check weight ds0 = None \<longrightarrow> snd ?r = (pre @ [?d']) @ map (with_proximity weight) ds0"
      using IH by blast
    show ?thesis
      unfolding step wc using f s t wp ds by simp
  qed
qed

lemma weights_check_first:
  "list_all (\<lambda>d. \<exists>p. edge_proximity weight d = Inr p) ds \<Longrightarrow> edge_proximity weight d = Inl e \<Longrightarrow>
     weights_check weight (ds @ d # ds') = Some e"
  by (induction ds) auto

lemma weights_check_None:
  "weights_check weight ds = None \<longleftrightarrow> list_all (\<lambda>d. \<exists>p. edge_proximity weight d = Inr p) ds"
  by (induction ds) (auto split: sum.splits)


definition proximity_graph :: "'a graph \<Rightarrow> string \<Rightarrow> store \<Rightarrow> (nat \<times> nat \<times> pyval) list" where
  \<comment> \<open>the relabelled edges with the reciprocals of their weights\<close>
  "proximity_graph G weight h =
     map (\<lambda>(u, v, a). (node_label (nodes G) u, node_label (nodes G) v,
            case edge_proximity weight (attrs_at h a) of Inr p \<Rightarrow> p | Inl e \<Rightarrow> PyInt 1)) (edges G)"

lemma convert_proximity:
  assumes "weights_check weight (copied_attrs G h) = None"
  shows "proximity_edges (h @ map (with_proximity weight) (copied_attrs G h))
           (edges (fst (convert_node_labels_to_integers G h))) = proximity_graph G weight h"
proof (rule nth_equalityI)
  show "length (proximity_edges (h @ map (with_proximity weight) (copied_attrs G h))
           (edges (fst (convert_node_labels_to_integers G h)))) = length (proximity_graph G weight h)"
    by (simp add: proximity_edges_def proximity_graph_def convert_node_labels_to_integers_def)
next
  fix k
  assume "k < length (proximity_edges (h @ map (with_proximity weight) (copied_attrs G h))
           (edges (fst (convert_node_labels_to_integers G h))))"
  then have k: "k < length (edges G)"
    by (simp add: proximity_edges_def convert_node_labels_to_integers_def)
  obtain u v a where e: "edges G ! k = (u, v, a)" by (cases "edges G ! k")
  have "list_all (\<lambda>d. \<exists>p. edge_proximity weight d = Inr p) (copied_attrs G h)"
    using assms by (simp add: weights_check_None)
  then have "\<exists>p. edge_proximity weight (copied_attrs G h ! k) = Inr p"
    using k by (simp add: list_all_length copied_attrs_def)
  then obtain w where w: "edge_proximity weight (attrs_at h a) = Inr w"
    using k e by (auto simp: copied_attrs_def)
  have at: "attrs_at (h @ map (with_proximity weight) (copied_attrs G h)) (length h + k)
          = with_proximity weight (attrs_at h a)"
    using k e by (simp add: attrs_at_def copied_attrs_def nth_append)
  have "map_of (with_proximity weight (attrs_at h a)) ''proximity'' = Some w"
    using w by (simp add: with_proximity_def update_conv')
  then show "proximity_edges (h @ map (with_proximity weight) (copied_attrs G h))
           (edges (fst (convert_node_labels_to_integers G h))) ! k = proximity_graph G weight h ! k"
    using k e w at by (simp add: proximity_edges_def proximity_graph_def convert_node_labels_to_integers_def)
qed

lemma convert_proximity_loop:
  "fst (proximity_loop weight (edges (fst (convert_node_labels_to_integers G h))) (h @ copied_attrs G h)) =
     (case weights_check weight (copied_attrs G h) of Some e \<Rightarrow> Inl e | None \<Rightarrow> Inr ())"
  "weights_check weight (copied_attrs G h) = None \<Longrightarrow>
     snd (proximity_loop weight (edges (fst (convert_node_labels_to_integers G h))) (h @ copied_attrs G h))
       = h @ map (with_proximity weight) (copied_attrs G h)"
  "take (length h) (snd (proximity_loop weight (edges (fst (convert_node_labels_to_integers G h))) (h @ copied_attrs G h))) = h"
proof -
  have "map (\<lambda>(i, j, a). a) (edges (fst (convert_node_labels_to_integers G h)))
          = [length h..<length h + length (copied_attrs G h)]"
    by (simp add: convert_addresses copied_attrs_def)
  note * = proximity_loop_fresh[OF this, of weight]
  show "fst (proximity_loop weight (edges (fst (convert_node_labels_to_integers G h))) (h @ copied_attrs G h)) =
     (case weights_check weight (copied_attrs G h) of Some e \<Rightarrow> Inl e | None \<Rightarrow> Inr ())"
    using * by blast
  show "weights_check weight (copied_attrs G h) = None \<Longrightarrow>
     snd (proximity_loop weight (edges (fst (convert_node_labels_to_integers G h))) (h @ copied_attrs G h))
       = h @ map (with_proximity weight) (copied_attrs G h)"
    using * by blast
  show "take (length h) (snd (proximity_loop weight (edges (fst (convert_node_labels_to_integers G h))) (h @ copied_attrs G h))) = h"
    using * by blast
qed

lemma SPT_unw_Inr:
  assumes "SPT_unw sp G r h = (Inr T, h')"
  shows "\<not> directed G \<and> \<not> multigraph G \<and> r \<in> set (relabelled_nodes G) \<and> h' = h @ copied_attrs G h \<and>
         (\<exists>ps. sp (relabelled_nodes G) (relabelled_edges G) r = Some ps \<and>
               fill_paths ps (zeros (length (nodes G))) = Inr T)"
  using assms
  by (auto simp: SPT_unw_def Let_def split_beta shortest_path_def split: if_splits sum.splits option.splits)

lemma SPT_unw_store:
  "snd (SPT_unw sp G r h) = (if directed G \<or> multigraph G then h else h @ copied_attrs G h)"
  by (auto simp: SPT_unw_def Let_def split_beta split: sum.splits)

lemma SPT_store:
  "take (length h) (snd (SPT sp G r weight h)) = h"
  by (auto simp: SPT_def Let_def split_beta convert_proximity_loop(3) split: sum.splits prod.splits)


lemma SPT_Inr:
  assumes "SPT sp G r weight h = (Inr T, h')"
  shows "\<not> directed G \<and> \<not> multigraph G \<and> r \<in> set (relabelled_nodes G) \<and>
         weights_check weight (copied_attrs G h) = None \<and>
         h' = h @ map (with_proximity weight) (copied_attrs G h) \<and>
         (\<exists>ps. sp (relabelled_nodes G) (proximity_graph G weight h) r = Some ps \<and>
               fill_paths ps (zeros (length (nodes G))) = Inr T)"
proof -
  let ?Gn = "fst (convert_node_labels_to_integers G h)"
  let ?pl = "proximity_loop weight (edges ?Gn) (h @ copied_attrs G h)"
  from assms have nd: "\<not> directed G" and nm: "\<not> multigraph G"
    by (auto simp: SPT_def split: if_splits)
  from assms nd nm have "\<exists>u. fst ?pl = Inr u"
    by (auto simp: SPT_def Let_def split_beta split: sum.splits)
  moreover have "fst ?pl = (case weights_check weight (copied_attrs G h) of Some e \<Rightarrow> Inl e | None \<Rightarrow> Inr ())"
    by (rule convert_proximity_loop(1))
  ultimately have wc: "weights_check weight (copied_attrs G h) = None"
    by (auto split: option.splits)
  then have h2: "snd ?pl = h @ map (with_proximity weight) (copied_attrs G h)"
    by (rule convert_proximity_loop(2))
  have pe: "proximity_edges (snd ?pl) (edges ?Gn) = proximity_graph G weight h"
    unfolding h2 using wc by (rule convert_proximity)
  from assms nd nm have "r \<in> set (relabelled_nodes G) \<and> h' = snd ?pl \<and>
         (\<exists>ps. sp (relabelled_nodes G) (proximity_graph G weight h) r = Some ps \<and>
               fill_paths ps (zeros (length (nodes G))) = Inr T)"
    by (auto simp: SPT_def Let_def split_beta shortest_path_def pe
        split: if_splits sum.splits option.splits)
  with nd nm wc h2 show ?thesis by simp
qed

fun sum_loop ::
  "(nat \<Rightarrow> store \<Rightarrow> (error + matrix) \<times> store) \<Rightarrow> nat list \<Rightarrow> matrix \<Rightarrow> store
     \<Rightarrow> (error + matrix) \<times> store" where
  "sum_loop step [] S h = (Inr S, h)"
| "sum_loop step (n # ns) S h =
     (case step n h of
        (Inl e, h') \<Rightarrow> (Inl e, h')
      | (Inr T, h') \<Rightarrow> sum_loop step ns (mat_add S T) h')"

lemma salience_unw_loop_sum: "salience_unw_loop sp G ns S h = sum_loop (SPT_unw sp G) ns S h"
  by (induction ns arbitrary: S h) (auto split: prod.splits sum.splits)

lemma salience_loop_sum: "salience_loop sp G weight ns S h = sum_loop (\<lambda>n. SPT sp G n weight) ns S h"
  by (induction ns arbitrary: S h) (auto split: prod.splits sum.splits)

lemma mat_add_ok: "mat_ok N S \<Longrightarrow> mat_ok N T \<Longrightarrow> mat_ok N (mat_add S T)"
  by (simp add: mat_ok_def mat_add_def list_all_length)

lemma mat_add_nth:
  "mat_ok N S \<Longrightarrow> mat_ok N T \<Longrightarrow> i < N \<Longrightarrow> j < N \<Longrightarrow> mat_add S T ! i ! j = S ! i ! j + T ! i ! j"
  by (simp add: mat_ok_def mat_add_def list_all_length)

lemma take_prefix_length: "take (length h) h1 = h \<Longrightarrow> length h \<le> length h1"
proof -
  assume "take (length h) h1 = h"
  then have "length (take (length h) h1) = length h" by simp
  then show ?thesis by (simp add: min_def split: if_splits)
qed

lemma sum_loop_store:
  assumes "\<And>n h. take (length h) (snd (step n h)) = h"
  shows "take (length h) (snd (sum_loop step ns S h)) = h"
proof (induction ns arbitrary: S h)
  case Nil
  show ?case by simp
next
  case (Cons n ns)
  obtain x h1 where st: "step n h = (x, h1)" by (cases "step n h")
  have t1: "take (length h) h1 = h" using assms[of h n] st by simp
  show ?case
  proof (cases x)
    case (Inl e)
    with st t1 show ?thesis by simp
  next
    case (Inr T)
    have "take (length h1) (snd (sum_loop step ns (mat_add S T) h1)) = h1" by (rule Cons.IH)
    then have "take (length h) (take (length h1) (snd (sum_loop step ns (mat_add S T) h1))) = take (length h) h1"
      by simp
    moreover have "length h \<le> length h1" using t1 by (rule take_prefix_length)
    ultimately have "take (length h) (snd (sum_loop step ns (mat_add S T) h1)) = h"
      using t1 by (simp add: min_def)
    with st Inr show ?thesis by simp
  qed
qed

lemma sum_loop_entries:
  assumes "sum_loop step ns S h = (Inr S', h')"
    and "mat_ok N S" and "I h"
    and inv: "\<And>n h x h1. I h \<Longrightarrow> step n h = (x, h1) \<Longrightarrow> I h1"
    and ok: "\<And>n h T h1. I h \<Longrightarrow> step n h = (Inr T, h1) \<Longrightarrow>
              mat_ok N T \<and> (\<forall>i<N. \<forall>j<N. 0 \<le> T ! i ! j \<and> T ! i ! j \<le> 1 \<and> (Z i j \<longrightarrow> T ! i ! j = 0))"
  shows "mat_ok N S' \<and>
         (\<forall>i<N. \<forall>j<N. S ! i ! j \<le> S' ! i ! j \<and> S' ! i ! j \<le> S ! i ! j + real (length ns) \<and>
              (Z i j \<longrightarrow> S' ! i ! j = S ! i ! j))"
  using assms(1-3)
proof (induction ns arbitrary: S h)
  case Nil
  then show ?case by simp
next
  case (Cons n ns)
  obtain x h1 where st: "step n h = (x, h1)" by (cases "step n h")
  with Cons.prems(1) obtain T where x: "x = Inr T" by (cases x) auto
  have I1: "I h1" using inv[OF Cons.prems(3) st] .
  have T: "mat_ok N T" "\<forall>i<N. \<forall>j<N. 0 \<le> T ! i ! j \<and> T ! i ! j \<le> 1 \<and> (Z i j \<longrightarrow> T ! i ! j = 0)"
    using ok[OF Cons.prems(3) st[unfolded x]] by blast+
  have ok1: "mat_ok N (mat_add S T)" using Cons.prems(2) T(1) by (rule mat_add_ok)
  have rest: "sum_loop step ns (mat_add S T) h1 = (Inr S', h')"
    using Cons.prems(1) st x by simp
  note IH = Cons.IH[OF rest ok1 I1]
  show ?case
  proof (intro conjI allI impI)
    show "mat_ok N S'" using IH by blast
  next
    fix i j assume i: "i < N" and j: "j < N"
    have a: "mat_add S T ! i ! j = S ! i ! j + T ! i ! j"
      using Cons.prems(2) T(1) i j by (rule mat_add_nth)
    have b: "0 \<le> T ! i ! j" "T ! i ! j \<le> 1" using T(2) i j by blast+
    have c: "mat_add S T ! i ! j \<le> S' ! i ! j"
      "S' ! i ! j \<le> mat_add S T ! i ! j + real (length ns)"
      using IH i j by blast+
    show "S ! i ! j \<le> S' ! i ! j" using a b c by linarith
    show "S' ! i ! j \<le> S ! i ! j + real (length (n # ns))" using a b c by simp
    assume z: "Z i j"
    then have "T ! i ! j = 0" using T(2) i j by blast
    moreover have "S' ! i ! j = mat_add S T ! i ! j" using IH i j z by blast
    ultimately show "S' ! i ! j = S ! i ! j" using a by simp
  qed
qed

definition walks :: "(nat \<times> nat) list \<Rightarrow> paths \<Rightarrow> bool" where
  "walks es ps \<longleftrightarrow>
     list_all (\<lambda>(k, p). list_all (\<lambda>(u, v). (u, v) \<in> set es \<or> (v, u) \<in> set es) (zip p (tl p))) ps"

definition walk_contract ::
  "(nat list \<Rightarrow> 'e list \<Rightarrow> nat \<Rightarrow> paths option) \<Rightarrow> nat list \<Rightarrow> 'e list \<Rightarrow> (nat \<times> nat) list \<Rightarrow> bool" where
  \<comment> \<open>every dictionary that the search \<open>sp\<close> returns for a reference node of \<open>ns\<close>
      holds paths that run along the edges \<open>es\<close>\<close>
  "walk_contract sp ns wes es \<longleftrightarrow>
     list_all (\<lambda>r. case sp ns wes r of None \<Rightarrow> True | Some ps \<Rightarrow> walks es ps) ns"

lemma walks_marked:
  "walks es ps \<Longrightarrow> marked ps i j \<Longrightarrow> (i, j) \<in> set es \<or> (j, i) \<in> set es"
  by (fastforce simp: walks_def marked_def list_all_iff list_ex_iff)

lemma fill_zeros:
  assumes "fill_paths ps (zeros N) = Inr T"
  shows "mat_ok N T \<and> (\<forall>i<N. \<forall>j<N. T ! i ! j = (if marked ps i j then 1 else 0))"
  using fill_paths_ok[OF assms mat_ok_zeros] fill_paths_nth[OF assms mat_ok_zeros]
  by (simp add: zeros_nth)

lemma SPT_unw_entries:
  assumes "SPT_unw sp G r h = (Inr T, h')"
  shows "\<exists>ps. sp (relabelled_nodes G) (relabelled_edges G) r = Some ps \<and>
           mat_ok (length (nodes G)) T \<and>
           (\<forall>i<length (nodes G). \<forall>j<length (nodes G). T ! i ! j = (if marked ps i j then 1 else 0))"
  using SPT_unw_Inr[OF assms] fill_zeros by blast

lemma SPT_entries:
  assumes "SPT sp G r weight h = (Inr T, h')"
  shows "\<exists>ps. sp (relabelled_nodes G) (proximity_graph G weight h) r = Some ps \<and>
           mat_ok (length (nodes G)) T \<and>
           (\<forall>i<length (nodes G). \<forall>j<length (nodes G). T ! i ! j = (if marked ps i j then 1 else 0))"
  using SPT_Inr[OF assms] fill_zeros by blast

lemma mat_div_ok: "mat_ok N S \<Longrightarrow> mat_ok N (mat_div S M)"
  by (simp add: mat_ok_def mat_div_def list_all_length)

lemma mat_div_nth: "mat_ok N S \<Longrightarrow> i < N \<Longrightarrow> j < N \<Longrightarrow> mat_div S M ! i ! j = S ! i ! j / real M"
  by (simp add: mat_ok_def mat_div_def list_all_length)

lemma salience_unw_Inr:
  assumes "fst (salience_unw sp G h) = Inr S"
  shows "\<exists>S' h2. sum_loop (SPT_unw sp G) (relabelled_nodes G) (zeros (length (nodes G))) (h @ copied_attrs G h) = (Inr S', h2)
           \<and> S = mat_div S' (length (nodes G))"
proof -
  obtain x h2 where "sum_loop (SPT_unw sp G) (relabelled_nodes G) (zeros (length (nodes G))) (h @ copied_attrs G h) = (x, h2)"
    by (cases "sum_loop (SPT_unw sp G) (relabelled_nodes G) (zeros (length (nodes G))) (h @ copied_attrs G h)")
  with assms show ?thesis
    by (auto simp: salience_unw_def Let_def split_beta graph_order_def salience_unw_loop_sum
        split: sum.splits)
qed

lemma salience_Inr:
  assumes "fst (salience sp G weight h) = Inr S"
  shows "\<exists>S' h2. sum_loop (\<lambda>n. SPT sp G n weight) (relabelled_nodes G) (zeros (length (nodes G))) (h @ copied_attrs G h) = (Inr S', h2)
           \<and> S = mat_div S' (length (nodes G))"
proof -
  obtain x h2 where "sum_loop (\<lambda>n. SPT sp G n weight) (relabelled_nodes G) (zeros (length (nodes G))) (h @ copied_attrs G h) = (x, h2)"
    by (cases "sum_loop (\<lambda>n. SPT sp G n weight) (relabelled_nodes G) (zeros (length (nodes G))) (h @ copied_attrs G h)")
  with assms show ?thesis
    by (auto simp: salience_def Let_def split_beta graph_order_def salience_loop_sum
        split: sum.splits)
qed

lemma range_from_loop:
  assumes loop: "sum_loop step ns (zeros N) h0 = (Inr S', h2)"
    and len: "length ns = N"
    and ok: "\<And>n h T h1. step n h = (Inr T, h1) \<Longrightarrow>
              mat_ok N T \<and> (\<forall>i<N. \<forall>j<N. T ! i ! j = 0 \<or> T ! i ! j = 1)"
  shows "mat_ok N (mat_div S' N) \<and> (\<forall>i<N. \<forall>j<N. 0 \<le> mat_div S' N ! i ! j \<and> mat_div S' N ! i ! j \<le> 1)"
proof -
  have *: "mat_ok N S' \<and>
         (\<forall>i<N. \<forall>j<N. zeros N ! i ! j \<le> S' ! i ! j \<and> S' ! i ! j \<le> zeros N ! i ! j + real (length ns) \<and>
              (False \<longrightarrow> S' ! i ! j = zeros N ! i ! j))"
  proof (rule sum_loop_entries[where I = "\<lambda>h. True" and Z = "\<lambda>i j. False", OF loop mat_ok_zeros])
    fix n h T h1 assume "True" and "step n h = (Inr T, h1)"
    from ok[OF this(2)]
    show "mat_ok N T \<and> (\<forall>i<N. \<forall>j<N. 0 \<le> T ! i ! j \<and> T ! i ! j \<le> 1 \<and> (False \<longrightarrow> T ! i ! j = 0))"
      by force
  qed simp_all
  then have okS: "mat_ok N S'" by blast
  show ?thesis
  proof (intro conjI allI impI)
    show "mat_ok N (mat_div S' N)" using okS by (rule mat_div_ok)
  next
    fix i j assume i: "i < N" and j: "j < N"
    have d: "mat_div S' N ! i ! j = S' ! i ! j / real N" using okS i j by (rule mat_div_nth)
    have b: "0 \<le> S' ! i ! j" "S' ! i ! j \<le> real N"
      using * i j len by (auto simp: zeros_nth)
    have N: "0 < real N" using i by simp
    show "0 \<le> mat_div S' N ! i ! j" using d b N by simp
    show "mat_div S' N ! i ! j \<le> 1" using d b N by simp
  qed
qed

lemma relabelled_nodes_length [simp]: "length (relabelled_nodes G) = length (nodes G)"
  by (simp add: relabelled_nodes_def)

lemma salience_unw_store: "take (length h) (snd (salience_unw sp G h)) = h"
proof -
  have step: "\<And>n h. take (length h) (snd (SPT_unw sp G n h)) = h"
    by (simp add: SPT_unw_store)
  have "take (length (h @ copied_attrs G h))
          (snd (sum_loop (SPT_unw sp G) (relabelled_nodes G) (zeros (length (nodes G))) (h @ copied_attrs G h)))
        = h @ copied_attrs G h"
    using step by (rule sum_loop_store)
  then have "take (length h) (take (length (h @ copied_attrs G h))
          (snd (sum_loop (SPT_unw sp G) (relabelled_nodes G) (zeros (length (nodes G))) (h @ copied_attrs G h))))
        = take (length h) (h @ copied_attrs G h)" by simp
  then have "take (length h)
          (snd (sum_loop (SPT_unw sp G) (relabelled_nodes G) (zeros (length (nodes G))) (h @ copied_attrs G h))) = h"
    by (simp add: min_def)
  then show ?thesis
    by (simp add: salience_unw_def Let_def split_beta graph_order_def salience_unw_loop_sum
        split: prod.splits sum.splits)
qed

lemma salience_store: "take (length h) (snd (salience sp G weight h)) = h"
proof -
  have step: "\<And>n h. take (length h) (snd (SPT sp G n weight h)) = h"
    by (rule SPT_store)
  have "take (length (h @ copied_attrs G h))
          (snd (sum_loop (\<lambda>n. SPT sp G n weight) (relabelled_nodes G) (zeros (length (nodes G))) (h @ copied_attrs G h)))
        = h @ copied_attrs G h"
    using step by (rule sum_loop_store)
  then have "take (length h) (take (length (h @ copied_attrs G h))
          (snd (sum_loop (\<lambda>n. SPT sp G n weight) (relabelled_nodes G) (zeros (length (nodes G))) (h @ copied_attrs G h))))
        = take (length h) (h @ copied_attrs G h)" by simp
  then have "take (length h)
          (snd (sum_loop (\<lambda>n. SPT sp G n weight) (relabelled_nodes G) (zeros (length (nodes G))) (h @ copied_attrs G h))) = h"
    by (simp add: min_def)
  then show ?thesis
    by (simp add: salience_def Let_def split_beta graph_order_def salience_loop_sum
        split: prod.splits sum.splits)
qed

lemma path3_salience_w: "fst (salience dijkstra path3 ''weight'' path3_store) = Inr path3_salience"
  by code_simp

lemma path3_salience_unw: "fst (salience_unw bfs path3 path3_store) = Inr path3_salience"
  by code_simp

lemma relabelled_nodes_Cons:
  "nodes G \<noteq> [] \<Longrightarrow> \<exists>n ns. relabelled_nodes G = n # ns"
  by (cases "nodes G") (simp_all add: relabelled_nodes_def)

lemma fill_path_no_pairs: "zip p (tl p) = [] \<Longrightarrow> fill_path p T = Inr T"
proof (cases p)
  case Nil
  then show ?thesis by simp
next
  case (Cons u q)
  assume "zip p (tl p) = []"
  with Cons have "q = []" by (cases q) simp_all
  with Cons show ?thesis by simp
qed

lemma fill_paths_no_edges: "walks [] ps \<Longrightarrow> fill_paths ps T = Inr T"
proof (induction ps)
  case Nil
  then show ?case by simp
next
  case (Cons kp ps)
  obtain k p where kp: "kp = (k, p)" by (cases kp)
  from Cons.prems kp have "list_all (\<lambda>(u, v). False) (zip p (tl p))" and w: "walks [] ps"
    by (simp_all add: walks_def)
  then have "zip p (tl p) = []" by (cases "zip p (tl p)") auto
  then have "fill_path p T = Inr T" by (rule fill_path_no_pairs)
  with Cons.IH[OF w] kp show ?case by simp
qed

lemma sum_loop_error:
  "sum_loop step ns S h = (Inl e, h') \<Longrightarrow> \<exists>n\<in>set ns. \<exists>h0 h1. step n h0 = (Inl e, h1)"
proof (induction ns arbitrary: S h)
  case Nil
  then show ?case by simp
next
  case (Cons n ns)
  obtain x h1 where st: "step n h = (x, h1)" by (cases "step n h")
  show ?case
  proof (cases x)
    case (Inl e')
    with st Cons.prems have "step n h = (Inl e, h1)" by simp
    then show ?thesis by auto
  next
    case (Inr T)
    with st Cons.prems have "sum_loop step ns (mat_add S T) h1 = (Inl e, h')" by simp
    from Cons.IH[OF this] show ?thesis by auto
  qed
qed

lemma set_one_error: "set_one T u v = Inl e \<Longrightarrow> e = IndexError"
  by (simp add: set_one_def split: if_splits)

lemma fill_path_error: "fill_path p T = Inl e \<Longrightarrow> e = IndexError"
  by (induction p T rule: fill_path.induct) (auto split: sum.splits dest: set_one_error)

lemma fill_paths_error: "fill_paths ps T = Inl e \<Longrightarrow> e = IndexError"
  by (induction ps T rule: fill_paths.induct) (auto split: sum.splits dest: fill_path_error)

lemma edge_proximity_errors:
  "edge_proximity weight d = Inl e \<Longrightarrow> e \<noteq> NodeNotFound"
  by (auto simp: edge_proximity_def reciprocal_def split: option.splits pyval.splits if_splits)

lemma weights_check_errors:
  "weights_check weight ds = Some e \<Longrightarrow> e \<noteq> NodeNotFound"
  by (induction ds) (auto split: sum.splits dest: edge_proximity_errors)

lemma SPT_unw_NodeNotFound:
  assumes "SPT_unw sp G r h = (Inl NodeNotFound, h')"
  shows "r \<notin> set (relabelled_nodes G)"
  using assms
  by (auto simp: SPT_unw_def Let_def split_beta shortest_path_def
      split: if_splits sum.splits option.splits dest: fill_paths_error)

lemma SPT_NodeNotFound:
  assumes "SPT sp G r weight h = (Inl NodeNotFound, h')"
  shows "r \<notin> set (relabelled_nodes G)"
proof
  assume r: "r \<in> set (relabelled_nodes G)"
  let ?Gn = "fst (convert_node_labels_to_integers G h)"
  let ?pl = "proximity_loop weight (edges ?Gn) (h @ copied_attrs G h)"
  have f: "fst ?pl = (case weights_check weight (copied_attrs G h) of Some e \<Rightarrow> Inl e | None \<Rightarrow> Inr ())"
    by (rule convert_proximity_loop(1))
  have "fst ?pl \<noteq> Inl NodeNotFound"
    using f weights_check_errors[of weight "copied_attrs G h"] by (auto split: option.splits)
  with assms r show False
    by (auto simp: SPT_def Let_def split_beta shortest_path_def
        split: if_splits sum.splits option.splits dest: fill_paths_error)
qed

lemma salience_error:
  assumes "fst (salience sp G weight h) = Inl e"
  shows "\<exists>n\<in>set (relabelled_nodes G). \<exists>h0 h1. SPT sp G n weight h0 = (Inl e, h1)"
proof -
  let ?l = "sum_loop (\<lambda>n. SPT sp G n weight) (relabelled_nodes G) (zeros (length (nodes G))) (h @ copied_attrs G h)"
  obtain x h2 where l: "?l = (x, h2)" by (cases ?l)
  with assms have "x = Inl e"
    by (auto simp: salience_def Let_def split_beta graph_order_def salience_loop_sum split: sum.splits)
  with l sum_loop_error[of "\<lambda>n. SPT sp G n weight" _ _ _ e h2] show ?thesis by blast
qed

lemma salience_unw_error:
  assumes "fst (salience_unw sp G h) = Inl e"
  shows "\<exists>n\<in>set (relabelled_nodes G). \<exists>h0 h1. SPT_unw sp G n h0 = (Inl e, h1)"
proof -
  let ?l = "sum_loop (SPT_unw sp G) (relabelled_nodes G) (zeros (length (nodes G))) (h @ copied_attrs G h)"
  obtain x h2 where l: "?l = (x, h2)" by (cases ?l)
  with assms have "x = Inl e"
    by (auto simp: salience_unw_def Let_def split_beta graph_order_def salience_unw_loop_sum split: sum.splits)
  with l sum_loop_error[of "SPT_unw sp G" _ _ _ e h2] show ?thesis by blast
qed

lemma copied_attrs_append:
  "list_all (\<lambda>(u, v, a). a < length h) (edges G) \<Longrightarrow> copied_attrs G (h @ xs) = copied_attrs G h"
  by (auto simp: copied_attrs_def attrs_at_def list_all_iff nth_append)

lemma SPT_weights_error:
  assumes "\<not> directed G" "\<not> multigraph G" "weights_check weight (copied_attrs G h) = Some e"
  shows "fst (SPT sp G r weight h) = Inl e"
proof -
  let ?Gn = "fst (convert_node_labels_to_integers G h)"
  let ?pl = "proximity_loop weight (edges ?Gn) (h @ copied_attrs G h)"
  have "fst ?pl = (case weights_check weight (copied_attrs G h) of Some e \<Rightarrow> Inl e | None \<Rightarrow> Inr ())"
    by (rule convert_proximity_loop(1))
  then have "fst ?pl = Inl e" using assms(3) by simp
  then show ?thesis using assms(1,2)
    by (simp add: SPT_def Let_def split_beta)
qed

lemma attrs_at_append: "attrs_at h a \<noteq> [] \<Longrightarrow> attrs_at (h @ xs) a = attrs_at h a"
  by (auto simp: attrs_at_def nth_append split: if_splits)

lemma edge_proximity_append:
  "edge_proximity weight (attrs_at h a) = Inr p \<Longrightarrow> attrs_at (h @ xs) a = attrs_at h a"
  by (rule attrs_at_append) (auto simp: edge_proximity_def)

lemma weights_check_copied:
  assumes e: "edges G = pre @ (u, v, a) # post"
    and p: "list_all (\<lambda>(u, v, a). \<exists>p. edge_proximity weight (attrs_at h a) = Inr p) pre"
    and z: "map_of (attrs_at h a) weight = Some z" "edge_proximity weight (attrs_at h a) = Inl x"
  shows "weights_check weight (copied_attrs G (h @ xs)) = Some x"
proof -
  have c: "copied_attrs G (h @ xs) =
      map (\<lambda>(u, v, a). attrs_at (h @ xs) a) pre @ attrs_at (h @ xs) a # map (\<lambda>(u, v, a). attrs_at (h @ xs) a) post"
    using e by (simp add: copied_attrs_def)
  have "attrs_at h a \<noteq> []" using z(1) by auto
  then have a: "attrs_at (h @ xs) a = attrs_at h a" by (rule attrs_at_append)
  have "list_all (\<lambda>d. \<exists>p. edge_proximity weight d = Inr p) (map (\<lambda>(u, v, a). attrs_at (h @ xs) a) pre)"
    using p by (auto simp: list_all_iff edge_proximity_append)
  then show ?thesis unfolding c using z(2) a by (intro weights_check_first) simp_all
qed

lemma walk_contract_marked:
  assumes "walk_contract sp ns wes es" "r \<in> set ns" "sp ns wes r = Some ps"
    "(i, j) \<notin> set es" "(j, i) \<notin> set es"
  shows "\<not> marked ps i j"
proof -
  from assms(1,2,3) have "walks es ps" by (auto simp: walk_contract_def list_all_iff)
  with assms(4,5) show ?thesis using walks_marked by blast
qed

lemma take_take_prefix:
  "take (length h) h1 = h \<Longrightarrow> take (length h1) h2 = h1 \<Longrightarrow> take (length h) h2 = h"
proof -
  assume a: "take (length h) h1 = h" and b: "take (length h1) h2 = h1"
  have "length h \<le> length h1" using a by (rule take_prefix_length)
  then have "take (length h) (take (length h1) h2) = take (length h) h2" by (simp add: min_def)
  with a b show ?thesis by simp
qed

lemma attrs_at_prefix:
  "take (length h) h' = h \<Longrightarrow> a < length h \<Longrightarrow> attrs_at h' a = attrs_at h a"
proof -
  assume t: "take (length h) h' = h" and a: "a < length h"
  have l: "length h \<le> length h'" using t by (rule take_prefix_length)
  have "take (length h) h' ! a = h' ! a" using a by simp
  with t have "h ! a = h' ! a" by simp
  with a l show ?thesis by (simp add: attrs_at_def)
qed

lemma proximity_graph_prefix:
  assumes "list_all (\<lambda>(u, v, a). a < length h) (edges G)" "take (length h) h' = h"
  shows "proximity_graph G weight h' = proximity_graph G weight h"
  using assms
  by (auto simp: proximity_graph_def list_all_iff attrs_at_prefix)

lemma zero_from_loop:
  assumes loop: "sum_loop step ns (zeros N) h0 = (Inr S', h2)"
    and I0: "I h0"
    and inv: "\<And>n h x h1. I h \<Longrightarrow> step n h = (x, h1) \<Longrightarrow> I h1"
    and ok: "\<And>n h T h1. I h \<Longrightarrow> step n h = (Inr T, h1) \<Longrightarrow>
              mat_ok N T \<and> (\<forall>i<N. \<forall>j<N. T ! i ! j = 0 \<or> T ! i ! j = 1) \<and> T ! i ! j = 0"
    and ij: "i < N" "j < N"
  shows "mat_div S' M ! i ! j = 0"
proof -
  have *: "mat_ok N S' \<and>
         (\<forall>i'<N. \<forall>j'<N. zeros N ! i' ! j' \<le> S' ! i' ! j' \<and> S' ! i' ! j' \<le> zeros N ! i' ! j' + real (length ns) \<and>
              (i' = i \<and> j' = j \<longrightarrow> S' ! i' ! j' = zeros N ! i' ! j'))"
  proof (rule sum_loop_entries[where I = I and Z = "\<lambda>i' j'. i' = i \<and> j' = j", OF loop mat_ok_zeros I0])
    fix n h x h1 assume "I h" "step n h = (x, h1)"
    then show "I h1" by (rule inv)
  next
    fix n h T h1 assume "I h" and "step n h = (Inr T, h1)"
    from ok[OF this]
    show "mat_ok N T \<and> (\<forall>i'<N. \<forall>j'<N. 0 \<le> T ! i' ! j' \<and> T ! i' ! j' \<le> 1 \<and> (i' = i \<and> j' = j \<longrightarrow> T ! i' ! j' = 0))"
      by force
  qed
  then have ok': "mat_ok N S'" and "S' ! i ! j = zeros N ! i ! j" using ij by blast+
  then have "S' ! i ! j = 0" using ij by (simp add: zeros_nth)
  moreover have "mat_div S' M ! i ! j = S' ! i ! j / real M" using ok' ij by (rule mat_div_nth)
  ultimately show ?thesis by simp
qed

definition walk :: "(nat \<times> nat) list \<Rightarrow> nat list \<Rightarrow> bool" where
  "walk es p \<longleftrightarrow> list_all (\<lambda>(u, v). (u, v) \<in> set es \<or> (v, u) \<in> set es) (zip p (tl p))"

definition walk_paths :: "(nat \<times> nat) list \<Rightarrow> paths \<Rightarrow> bool" where
  "walk_paths es ps \<longleftrightarrow> (\<forall>k p. (k, p) \<in> set ps \<longrightarrow> walk es p \<and> (p \<noteq> [] \<longrightarrow> last p = k))"

lemma walk_paths_walks: "walk_paths es ps \<Longrightarrow> walks es ps"
proof -
  assume a: "walk_paths es ps"
  have "list_all (\<lambda>(u, v). (u, v) \<in> set es \<or> (v, u) \<in> set es) (zip p (tl p))"
    if "(k, p) \<in> set ps" for k p
    using a that unfolding walk_paths_def walk_def by blast
  then show ?thesis unfolding walks_def list_all_iff by blast
qed

lemma zip_snoc: "p \<noteq> [] \<Longrightarrow> zip (p @ [w]) (tl p @ [w]) = zip p (tl p) @ [(last p, w)]"
proof (induction p)
  case Nil
  then show ?case by simp
next
  case (Cons x xs)
  show ?case
  proof (cases xs)
    case Nil
    then show ?thesis by simp
  next
    case (Cons y ys)
    with Cons.IH show ?thesis by simp
  qed
qed

lemma walk_snoc:
  assumes "walk es p" and "p \<noteq> [] \<longrightarrow> (last p, w) \<in> set es \<or> (w, last p) \<in> set es"
  shows "walk es (p @ [w])"
proof (cases "p = []")
  case True
  then show ?thesis by (simp add: walk_def)
next
  case False
  with assms show ?thesis by (simp add: walk_def zip_snoc)
qed

lemma path_of_walk:
  assumes "walk_paths es ps"
  shows "walk es (path_of ps v) \<and> (path_of ps v \<noteq> [] \<longrightarrow> last (path_of ps v) = v)"
proof (cases "map_of ps v")
  case None
  then show ?thesis by (simp add: path_of_def walk_def)
next
  case (Some p)
  then have "(v, p) \<in> set ps" by (rule map_of_SomeD)
  with assms Some show ?thesis by (auto simp: walk_paths_def path_of_def)
qed

lemma walk_paths_extend:
  assumes "walk_paths es ps" and "(v, w) \<in> set es \<or> (w, v) \<in> set es"
  shows "walk es (path_of ps v @ [w]) \<and> last (path_of ps v @ [w]) = w"
  using path_of_walk[OF assms(1), of v] assms(2) by (auto intro!: walk_snoc)

lemma neighbours_adjacent:
  "w \<in> set (neighbours es v) \<Longrightarrow> (v, w) \<in> set es \<or> (w, v) \<in> set es"
  by (auto simp: neighbours_def split: if_splits)

lemma visit_walk_paths:
  assumes "walk_paths es (fst st)" and "walk es pv" and "pv \<noteq> [] \<longrightarrow> last pv = v"
    and "\<forall>w\<in>set ws. (v, w) \<in> set es \<or> (w, v) \<in> set es"
  shows "walk_paths es (fst (visit pv ws st))"
  using assms
proof (induction pv ws st rule: visit.induct)
  case (1 pv st)
  then show ?case by simp
next
  case (2 pv w ws ps nxt)
  have ws: "\<forall>w\<in>set ws. (v, w) \<in> set es \<or> (w, v) \<in> set es" using "2.prems"(4) by simp
  show ?case
  proof (cases "map_of ps w = None")
    case True
    have "walk es (pv @ [w])" using "2.prems" by (auto intro!: walk_snoc)
    then have "walk_paths es (fst (ps @ [(w, pv @ [w])], nxt @ [w]))"
      using "2.prems"(1) by (simp add: walk_paths_def)
    from "2.IH"(1)[OF True this "2.prems"(2,3) ws] True show ?thesis by simp
  next
    case False
    from "2.IH"(2)[OF False "2.prems"(1,2,3) ws] False show ?thesis by auto
  qed
qed

lemma bfs_level_walk_paths:
  "walk_paths es (fst st) \<Longrightarrow> walk_paths es (fst (bfs_level es vs st))"
proof (induction es vs st rule: bfs_level.induct)
  case (1 es st)
  then show ?case by simp
next
  case (2 es v vs ps nxt)
  have p: "walk_paths es ps" using "2.prems" by simp
  have "walk_paths es (fst (visit (path_of ps v) (neighbours es v) (ps, nxt)))"
  proof (rule visit_walk_paths[where v = v])
    show "walk_paths es (fst (ps, nxt))" using p by simp
    show "walk es (path_of ps v)" using path_of_walk[OF p] by blast
    show "path_of ps v \<noteq> [] \<longrightarrow> last (path_of ps v) = v" using path_of_walk[OF p] by blast
    show "\<forall>w\<in>set (neighbours es v). (v, w) \<in> set es \<or> (w, v) \<in> set es"
      using neighbours_adjacent by blast
  qed
  with "2.IH" show ?case by simp
qed

lemma bfs_loop_walk_paths:
  "walk_paths es ps \<Longrightarrow> walk_paths es (bfs_loop es ps lvl)"
proof (induction es ps lvl rule: bfs_loop.induct)
  case (1 es ps lvl)
  show ?case
  proof (cases "lvl = []")
    case True
    with 1 show ?thesis by simp
  next
    case False
    obtain ps' nxt where l: "bfs_level es lvl (ps, []) = (ps', nxt)"
      by (cases "bfs_level es lvl (ps, [])")
    have "walk_paths es (fst (bfs_level es lvl (ps, [])))"
      using "1.prems" by (intro bfs_level_walk_paths) simp
    with l have "walk_paths es ps'" by simp
    with "1.IH"[OF False l[symmetric]] have "walk_paths es (bfs_loop es ps' nxt)" by simp
    with False l show ?thesis by (subst bfs_loop.simps) simp
  qed
qed

lemma bfs_walks: "bfs ns es r = Some ps \<Longrightarrow> walks es ps"
proof -
  assume "bfs ns es r = Some ps"
  then have ps: "ps = bfs_loop es [(r, [r])] [r]" by (simp add: bfs_def)
  have "walk_paths es [(r, [r])]" by (simp add: walk_paths_def walk_def)
  then have "walk_paths es ps" unfolding ps by (rule bfs_loop_walk_paths)
  then show ?thesis by (rule walk_paths_walks)
qed


definition edge_ends :: "(nat \<times> nat \<times> pyval) list \<Rightarrow> (nat \<times> nat) list" where
  "edge_ends es = map (\<lambda>(a, b, c). (a, b)) es"

lemma weighted_neighbours_adjacent:
  "(u, cost) \<in> set (weighted_neighbours es v) \<Longrightarrow>
     (v, u) \<in> set (edge_ends es) \<or> (u, v) \<in> set (edge_ends es)"
proof -
  assume "(u, cost) \<in> set (weighted_neighbours es v)"
  then obtain a b c where e: "(a, b, c) \<in> set es"
    and m: "(u, cost) \<in> set (if a = v then [(b, c)] else if b = v then [(a, c)] else [])"
    by (auto simp: weighted_neighbours_def)
  have "(\<lambda>(a, b, c). (a, b)) (a, b, c) \<in> set (edge_ends es)"
    unfolding edge_ends_def set_map using e by (rule imageI)
  then have ab: "(a, b) \<in> set (edge_ends es)" by simp
  show ?thesis
  proof (cases "a = v")
    case True
    with m have "u = b" by simp
    with True ab show ?thesis by simp
  next
    case False
    with m have "b = v \<and> u = a" by (simp split: if_splits)
    with ab show ?thesis by simp
  qed
qed

lemma update_entries:
  "(k', p) \<in> set (AList.update k v al) \<Longrightarrow> (k', p) = (k, v) \<or> (k', p) \<in> set al"
  by (induction al) (auto split: if_splits)

lemma walk_paths_update:
  assumes "walk_paths es ps" and "(v, u) \<in> set es \<or> (u, v) \<in> set es"
  shows "walk_paths es (AList.update u (path_of ps v @ [u]) ps)"
proof -
  have n: "walk es (path_of ps v @ [u]) \<and> last (path_of ps v @ [u]) = u"
    using assms by (rule walk_paths_extend)
  have "walk es p \<and> (p \<noteq> [] \<longrightarrow> last p = k)"
    if "(k, p) \<in> set (AList.update u (path_of ps v @ [u]) ps)" for k p
  proof -
    from that have "(k, p) = (u, path_of ps v @ [u]) \<or> (k, p) \<in> set ps"
      by (rule update_entries)
    then show ?thesis
    proof
      assume "(k, p) = (u, path_of ps v @ [u])"
      then have "k = u" and "p = path_of ps v @ [u]" by simp_all
      with n show ?thesis by simp
    next
      assume "(k, p) \<in> set ps"
      with assms(1) show ?thesis unfolding walk_paths_def by blast
    qed
  qed
  then show ?thesis unfolding walk_paths_def by blast
qed

lemma relax_walk_paths:
  assumes "relax v d nb st = Some st'" and "walk_paths E (fst (snd (snd (snd st))))"
    and "\<forall>(u, cost) \<in> set nb. (v, u) \<in> set E \<or> (u, v) \<in> set E"
  shows "walk_paths E (fst (snd (snd (snd st'))))"
  using assms
proof (induction v d nb st arbitrary: st' rule: relax.induct)
  case (1 v d st)
  then show ?case by simp
next
  case (2 v d u cost nb fr dn seen ps c)
  from "2.prems"(1) obtain x where x: "number_value cost = Some x"
    by (auto split: option.splits)
  have nb: "\<forall>(u, cost) \<in> set nb. (v, u) \<in> set E \<or> (u, v) \<in> set E"
    and adj: "(v, u) \<in> set E \<or> (u, v) \<in> set E" using "2.prems"(3) by auto
  have ps: "walk_paths E ps" using "2.prems"(2) by simp
  let ?pushed = "(fr @ [(xadd d x, c, u)], dn, AList.update u (xadd d x) seen,
                  AList.update u (path_of ps v @ [u]) ps, Suc c)"
  from "2.prems"(1) x consider
      (same) "relax v d nb (fr, dn, seen, ps, c) = Some st'"
        "(\<exists>ud. map_of dn u = Some ud \<and> \<not> xless (xadd d x) ud) \<or>
         (map_of dn u = None \<and> \<not> (case map_of seen u of None \<Rightarrow> True | Some su \<Rightarrow> xless (xadd d x) su))"
    | (push) "relax v d nb ?pushed = Some st'" "map_of dn u = None"
        "case map_of seen u of None \<Rightarrow> True | Some su \<Rightarrow> xless (xadd d x) su"
    by (auto split: option.splits if_splits)
  then show ?case
  proof cases
    case same
    then show ?thesis using "2.IH" x "2.prems"(2) nb by blast
  next
    case push
    have "walk_paths E (fst (snd (snd (snd ?pushed))))"
      using walk_paths_update[OF ps adj] by simp
    then show ?thesis using "2.IH" x push nb by blast
  qed
qed

lemma dijkstra_loop_step:
  assumes "fr = x # xs" and "heap_min x xs = (d, k, v)"
  shows "dijkstra_loop es (fr, dn, seen, ps, c) =
     (if map_of dn v \<noteq> None
      then dijkstra_loop es (remove1 (d, k, v) fr, dn, seen, ps, c)
      else (case relax v d (weighted_neighbours es v)
                   (remove1 (d, k, v) fr, dn @ [(v, d)], seen, ps, c) of
              None \<Rightarrow> None
            | Some st \<Rightarrow> dijkstra_loop es st))"
  by (subst dijkstra_loop.simps) (simp only: assms list.case prod.case)

lemma dijkstra_loop_walk_paths:
  "dijkstra_loop es st = Some ps' \<Longrightarrow> walk_paths (edge_ends es) (fst (snd (snd (snd st)))) \<Longrightarrow>
     walk_paths (edge_ends es) ps'"
proof (induction es st arbitrary: ps' rule: dijkstra_loop.induct)
  case (1 es fr dn seen ps c)
  have ps: "walk_paths (edge_ends es) ps" using "1.prems"(2) by (simp del: dijkstra_loop.simps)
  show ?case
  proof (cases fr)
    case Nil
    have "dijkstra_loop es ([], dn, seen, ps, c) = Some ps"
      by (subst dijkstra_loop.simps) (simp only: list.case)
    with "1.prems"(1) Nil ps show ?thesis by (simp del: dijkstra_loop.simps)
  next
    case (Cons x xs)
    obtain d k v where m: "heap_min x xs = (d, k, v)" by (cases "heap_min x xs")
    note step = dijkstra_loop_step[OF Cons m, of es dn seen ps c]
    show ?thesis
    proof (cases "map_of dn v \<noteq> None")
      case True
      with "1.prems"(1) step have l: "dijkstra_loop es (remove1 (d, k, v) fr, dn, seen, ps, c) = Some ps'"
        by (simp del: dijkstra_loop.simps)
      have "walk_paths (edge_ends es) (fst (snd (snd (snd (remove1 (d, k, v) fr, dn, seen, ps, c)))))"
        using ps by (simp del: dijkstra_loop.simps)
      with "1.IH"(1)[OF Cons m[symmetric] refl True l] show ?thesis .
    next
      case False
      with "1.prems"(1) step obtain st where
        r: "relax v d (weighted_neighbours es v) (remove1 (d, k, v) fr, dn @ [(v, d)], seen, ps, c) = Some st"
        and l: "dijkstra_loop es st = Some ps'"
        by (auto simp del: dijkstra_loop.simps split: option.splits)
      have "walk_paths (edge_ends es) (fst (snd (snd (snd st))))"
      proof (rule relax_walk_paths[OF r])
        show "walk_paths (edge_ends es)
            (fst (snd (snd (snd (remove1 (d, k, v) fr, dn @ [(v, d)], seen, ps, c)))))"
          using ps by (simp del: dijkstra_loop.simps)
        show "\<forall>(u, cost)\<in>set (weighted_neighbours es v).
            (v, u) \<in> set (edge_ends es) \<or> (u, v) \<in> set (edge_ends es)"
          using weighted_neighbours_adjacent by blast
      qed
      with "1.IH"(2)[OF Cons m[symmetric] refl False r l] show ?thesis .
    qed
  qed
qed

lemma dijkstra_walks: "dijkstra ns es r = Some ps \<Longrightarrow> walks (edge_ends es) ps"
proof -
  assume "dijkstra ns es r = Some ps"
  then have "dijkstra_loop es ([(Fin 0, 0, r)], [], [(r, Fin 0)], [(r, [r])], 1) = Some ps"
    unfolding dijkstra_def .
  moreover have "walk_paths (edge_ends es) [(r, [r])]"
    by (simp add: walk_paths_def walk_def)
  then have "walk_paths (edge_ends es) (fst (snd (snd (snd ([(Fin 0, 0, r)], [], [(r, Fin 0)], [(r, [r])], 1::nat)))))"
    by (simp only: fst_conv snd_conv)
  ultimately have "walk_paths (edge_ends es) ps" by (rule dijkstra_loop_walk_paths)
  then show ?thesis by (rule walk_paths_walks)
qed

lemma zero_entry_any_search:
  assumes "i < length (nodes G)" and "j < length (nodes G)"
    and "(i, j) \<notin> set (relabelled_edges G)" and "(j, i) \<notin> set (relabelled_edges G)"
  shows "(list_all (\<lambda>(u, v, a). a < length h) (edges G) \<and>
          walk_contract sp (relabelled_nodes G) (proximity_graph G weight h) (relabelled_edges G) \<and>
          fst (salience sp G weight h) = Inr S \<longrightarrow> S ! i ! j = 0) \<and>
         (walk_contract sp' (relabelled_nodes G) (relabelled_edges G) (relabelled_edges G) \<and>
          fst (salience_unw sp' G h) = Inr S \<longrightarrow> S ! i ! j = 0)"
proof (rule conjI; rule impI)
  assume a: "list_all (\<lambda>(u, v, a). a < length h) (edges G) \<and>
          walk_contract sp (relabelled_nodes G) (proximity_graph G weight h) (relabelled_edges G) \<and>
          fst (salience sp G weight h) = Inr S"
  then have addr: "list_all (\<lambda>(u, v, a). a < length h) (edges G)"
    and wc: "walk_contract sp (relabelled_nodes G) (proximity_graph G weight h) (relabelled_edges G)"
    and r: "fst (salience sp G weight h) = Inr S" by blast+
  from salience_Inr[OF r] obtain S' h2 where
    loop: "sum_loop (\<lambda>n. SPT sp G n weight) (relabelled_nodes G) (zeros (length (nodes G))) (h @ copied_attrs G h) = (Inr S', h2)"
    and S: "S = mat_div S' (length (nodes G))" by blast
  have "mat_div S' (length (nodes G)) ! i ! j = 0"
  proof (rule zero_from_loop[where I = "\<lambda>h'. take (length h) h' = h" and N = "length (nodes G)", OF loop])
    show "take (length h) (h @ copied_attrs G h) = h" by simp
  next
    fix n h0 x h1 assume p: "take (length h) h0 = h" and st: "SPT sp G n weight h0 = (x, h1)"
    have q: "take (length h0) h1 = h0" using SPT_store[of h0 sp G n weight] st by simp
    show "take (length h) h1 = h" using p q by (rule take_take_prefix)
  next
    fix n h0 T h1 assume pre: "take (length h) h0 = h" and st: "SPT sp G n weight h0 = (Inr T, h1)"
    from SPT_Inr[OF st] obtain ps where n: "n \<in> set (relabelled_nodes G)"
      and sp: "sp (relabelled_nodes G) (proximity_graph G weight h0) n = Some ps"
      and f: "fill_paths ps (zeros (length (nodes G))) = Inr T" by blast
    have "proximity_graph G weight h0 = proximity_graph G weight h"
      using addr pre by (rule proximity_graph_prefix)
    with sp have "sp (relabelled_nodes G) (proximity_graph G weight h) n = Some ps" by simp
    with wc n have nm: "\<not> marked ps i j" using assms(3,4) by (rule walk_contract_marked)
    from fill_zeros[OF f] nm assms(1,2)
    show "mat_ok (length (nodes G)) T \<and>
          (\<forall>i<length (nodes G). \<forall>j<length (nodes G). T ! i ! j = 0 \<or> T ! i ! j = 1) \<and> T ! i ! j = 0"
      by auto
  qed (use assms in simp_all)
  with S show "S ! i ! j = 0" by simp
next
  assume a: "walk_contract sp' (relabelled_nodes G) (relabelled_edges G) (relabelled_edges G) \<and>
          fst (salience_unw sp' G h) = Inr S"
  then have wc: "walk_contract sp' (relabelled_nodes G) (relabelled_edges G) (relabelled_edges G)"
    and r: "fst (salience_unw sp' G h) = Inr S" by blast+
  from salience_unw_Inr[OF r] obtain S' h2 where
    loop: "sum_loop (SPT_unw sp' G) (relabelled_nodes G) (zeros (length (nodes G))) (h @ copied_attrs G h) = (Inr S', h2)"
    and S: "S = mat_div S' (length (nodes G))" by blast
  have "mat_div S' (length (nodes G)) ! i ! j = 0"
  proof (rule zero_from_loop[where I = "\<lambda>h'. True" and N = "length (nodes G)", OF loop])
    fix n h0 T h1 assume "True" and st: "SPT_unw sp' G n h0 = (Inr T, h1)"
    from SPT_unw_Inr[OF st] obtain ps where n: "n \<in> set (relabelled_nodes G)"
      and sp: "sp' (relabelled_nodes G) (relabelled_edges G) n = Some ps"
      and f: "fill_paths ps (zeros (length (nodes G))) = Inr T" by blast
    from wc n sp have nm: "\<not> marked ps i j" using assms(3,4) by (rule walk_contract_marked)
    from fill_zeros[OF f] nm assms(1,2)
    show "mat_ok (length (nodes G)) T \<and>
          (\<forall>i<length (nodes G). \<forall>j<length (nodes G). T ! i ! j = 0 \<or> T ! i ! j = 1) \<and> T ! i ! j = 0"
      by auto
  qed (use assms in simp_all)
  with S show "S ! i ! j = 0" by simp
qed

lemma salience_divisions_result:
  "salience_divisions sp G weight h =
     (case fst (salience sp G weight h) of Inl e \<Rightarrow> [] | Inr S \<Rightarrow> [graph_order G])"
  by (simp add: salience_divisions_def salience_def Let_def split_beta split: prod.splits sum.splits)

lemma salience_unw_divisions_result:
  "salience_unw_divisions sp G h =
     (case fst (salience_unw sp G h) of Inl e \<Rightarrow> [] | Inr S \<Rightarrow> [graph_order G])"
  by (simp add: salience_unw_divisions_def salience_unw_def Let_def split_beta split: prod.splits sum.splits)

lemma edge_ends_proximity_graph: "edge_ends (proximity_graph G weight h) = relabelled_edges G"
  by (auto simp: edge_ends_def proximity_graph_def relabelled_edges_def split: prod.splits)

lemma walk_contract_bfs: "walk_contract bfs ns es es"
  unfolding walk_contract_def list_all_iff
  by (auto split: option.splits dest: bfs_walks)

lemma zero_entry_dijkstra:
  assumes "i < length (nodes G)" and "j < length (nodes G)"
    and "(i, j) \<notin> set (relabelled_edges G)" and "(j, i) \<notin> set (relabelled_edges G)"
    and r: "fst (salience dijkstra G weight h) = Inr S"
  shows "S ! i ! j = 0"
proof -
  from salience_Inr[OF r] obtain S' h2 where
    loop: "sum_loop (\<lambda>n. SPT dijkstra G n weight) (relabelled_nodes G) (zeros (length (nodes G))) (h @ copied_attrs G h) = (Inr S', h2)"
    and S: "S = mat_div S' (length (nodes G))" by blast
  have "mat_div S' (length (nodes G)) ! i ! j = 0"
  proof (rule zero_from_loop[where I = "\<lambda>h'. True" and N = "length (nodes G)", OF loop])
    fix n h0 T h1 assume "True" and st: "SPT dijkstra G n weight h0 = (Inr T, h1)"
    from SPT_Inr[OF st] obtain ps where
      sp: "dijkstra (relabelled_nodes G) (proximity_graph G weight h0) n = Some ps"
      and f: "fill_paths ps (zeros (length (nodes G))) = Inr T" by blast
    have "walks (edge_ends (proximity_graph G weight h0)) ps" using sp by (rule dijkstra_walks)
    then have "walks (relabelled_edges G) ps" by (simp only: edge_ends_proximity_graph)
    then have nm: "\<not> marked ps i j" using assms(3,4) walks_marked by blast
    from fill_zeros[OF f] nm assms(1,2)
    show "mat_ok (length (nodes G)) T \<and>
          (\<forall>i<length (nodes G). \<forall>j<length (nodes G). T ! i ! j = 0 \<or> T ! i ! j = 1) \<and> T ! i ! j = 0"
      by auto
  qed (use assms in simp_all)
  with S show ?thesis by simp
qed

lemma small_graphs_any_search:
  "(nodes G = [] \<longrightarrow>
      fst (salience sp G weight h) = Inr [] \<and> fst (salience_unw sp' G h) = Inr [] \<and>
      salience_divisions sp G weight h = [0] \<and> salience_unw_divisions sp' G h = [0]) \<and>
   (length (nodes G) = 1 \<and> \<not> directed G \<and> \<not> multigraph G \<and> edges G = [] \<and>
    sp [0] [] 0 = Some ps \<and> walks [] ps \<and> sp' [0] [] 0 = Some ps' \<and> walks [] ps' \<longrightarrow>
      fst (salience sp G weight h) = Inr [[0]] \<and> fst (salience_unw sp' G h) = Inr [[0]] \<and>
      salience_divisions sp G weight h = [1] \<and> salience_unw_divisions sp' G h = [1])"
proof (rule conjI; rule impI)
  assume "nodes G = []"
  then show "fst (salience sp G weight h) = Inr [] \<and> fst (salience_unw sp' G h) = Inr [] \<and>
      salience_divisions sp G weight h = [0] \<and> salience_unw_divisions sp' G h = [0]"
    by (simp add: salience_def salience_unw_def salience_divisions_def salience_unw_divisions_def
        Let_def split_beta graph_order_def relabelled_nodes_def zeros_def mat_div_def)
next
  assume a: "length (nodes G) = 1 \<and> \<not> directed G \<and> \<not> multigraph G \<and> edges G = [] \<and>
    sp [0] [] 0 = Some ps \<and> walks [] ps \<and> sp' [0] [] 0 = Some ps' \<and> walks [] ps'"
  then obtain n where n: "nodes G = [n]" by (cases "nodes G") auto
  have rn: "relabelled_nodes G = [0]" using n by (simp add: relabelled_nodes_def node_label_def)
  have e: "edges (fst (convert_node_labels_to_integers G h)) = []" for h
    using a by (simp add: convert_node_labels_to_integers_def)
  have c: "copied_attrs G h = []" for h using a by (simp add: copied_attrs_def)
  have o: "graph_order G = 1" using n by (simp add: graph_order_def)
  have f: "fill_paths ps (zeros 1) = Inr (zeros 1)" "fill_paths ps' (zeros 1) = Inr (zeros 1)"
    using a by (simp_all add: fill_paths_no_edges)
  have w: "SPT sp G 0 weight h = (Inr (zeros 1), h)" for h
    using a n f by (simp add: SPT_def Let_def split_beta rn e c shortest_path_def
        proximity_edges_def)
  have u: "SPT_unw sp' G 0 h = (Inr (zeros 1), h)" for h
    using a n f by (simp add: SPT_unw_def Let_def split_beta rn e c shortest_path_def
        unweighted_edges_def)
  have "fst (salience sp G weight h) = Inr [[0]]"
    by (simp add: salience_def Let_def split_beta rn c o w zeros_def mat_add_def mat_div_def)
  moreover have "fst (salience_unw sp' G h) = Inr [[0]]"
    by (simp add: salience_unw_def Let_def split_beta rn c o u zeros_def mat_add_def mat_div_def)
  moreover have "salience_divisions sp G weight h = [1]"
    by (simp add: salience_divisions_def Let_def split_beta rn c o w)
  moreover have "salience_unw_divisions sp' G h = [1]"
    by (simp add: salience_unw_divisions_def Let_def split_beta rn c o u)
  ultimately show "fst (salience sp G weight h) = Inr [[0]] \<and> fst (salience_unw sp' G h) = Inr [[0]] \<and>
      salience_divisions sp G weight h = [1] \<and> salience_unw_divisions sp' G h = [1]"
    by simp
qed

section \<open>The path graph\<close>

text \<open>
  C2. The unweighted salience of the path graph 0-1-2. The specification expects the
  entries (0,1) = 1.0, (1,2) = 1.0 and (0,2) = 0. The source marks only
  \<open>T[path[i]][path[i+1]]\<close>, the direction in which a path runs away from its reference
  node, so the edge (0,1) is counted at (0,1) by the tree of node 0 alone and at (1,0) by
  the trees of the nodes 1 and 2: the entry (0,1) is 1/3 and the entry (1,2) is 2/3.
\<close>

theorem C2_path_graph_unweighted:
  "fst (salience_unw bfs path3 [[], []]) = Inr [[0, 1/3, 0], [2/3, 0, 2/3], [0, 1/3, 0]]"
  by code_simp

section \<open>Range of the entries\<close>

text \<open>
  C7. Every entry of a salience matrix that is returned lies in the closed interval from
  0 to 1, in the weighted and in the unweighted variant, whatever the shortest-path
  search returns: each reference node adds a matrix of zeros and ones, there are \<open>N\<close>
  reference nodes, and the sum is divided by \<open>N\<close>. The matrix has \<open>N\<close> rows of \<open>N\<close> entries.
\<close>

theorem C7_range:
  "(fst (salience sp G weight h) = Inr S \<longrightarrow>
      mat_ok (length (nodes G)) S \<and>
      (\<forall>i<length (nodes G). \<forall>j<length (nodes G). 0 \<le> S ! i ! j \<and> S ! i ! j \<le> 1)) \<and>
   (fst (salience_unw sp' G h) = Inr S \<longrightarrow>
      mat_ok (length (nodes G)) S \<and>
      (\<forall>i<length (nodes G). \<forall>j<length (nodes G). 0 \<le> S ! i ! j \<and> S ! i ! j \<le> 1))"
proof (rule conjI; rule impI)
  assume "fst (salience sp G weight h) = Inr S"
  from salience_Inr[OF this] obtain S' h2 where
    loop: "sum_loop (\<lambda>n. SPT sp G n weight) (relabelled_nodes G) (zeros (length (nodes G))) (h @ copied_attrs G h) = (Inr S', h2)"
    and S: "S = mat_div S' (length (nodes G))" by blast
  have "mat_ok (length (nodes G)) (mat_div S' (length (nodes G))) \<and>
        (\<forall>i<length (nodes G). \<forall>j<length (nodes G).
            0 \<le> mat_div S' (length (nodes G)) ! i ! j \<and> mat_div S' (length (nodes G)) ! i ! j \<le> 1)"
  proof (rule range_from_loop[where N = "length (nodes G)", OF loop])
    fix n h T h1 assume "SPT sp G n weight h = (Inr T, h1)"
    from SPT_entries[OF this]
    show "mat_ok (length (nodes G)) T \<and> (\<forall>i<length (nodes G). \<forall>j<length (nodes G). T ! i ! j = 0 \<or> T ! i ! j = 1)"
      by auto
  qed simp
  then show "mat_ok (length (nodes G)) S \<and>
      (\<forall>i<length (nodes G). \<forall>j<length (nodes G). 0 \<le> S ! i ! j \<and> S ! i ! j \<le> 1)"
    using S by simp
next
  assume "fst (salience_unw sp' G h) = Inr S"
  from salience_unw_Inr[OF this] obtain S' h2 where
    loop: "sum_loop (SPT_unw sp' G) (relabelled_nodes G) (zeros (length (nodes G))) (h @ copied_attrs G h) = (Inr S', h2)"
    and S: "S = mat_div S' (length (nodes G))" by blast
  have "mat_ok (length (nodes G)) (mat_div S' (length (nodes G))) \<and>
        (\<forall>i<length (nodes G). \<forall>j<length (nodes G).
            0 \<le> mat_div S' (length (nodes G)) ! i ! j \<and> mat_div S' (length (nodes G)) ! i ! j \<le> 1)"
  proof (rule range_from_loop[where N = "length (nodes G)", OF loop])
    fix n h T h1 assume "SPT_unw sp' G n h = (Inr T, h1)"
    from SPT_unw_entries[OF this]
    show "mat_ok (length (nodes G)) T \<and> (\<forall>i<length (nodes G). \<forall>j<length (nodes G). T ! i ! j = 0 \<or> T ! i ! j = 1)"
      by auto
  qed simp
  then show "mat_ok (length (nodes G)) S \<and>
      (\<forall>i<length (nodes G). \<forall>j<length (nodes G). 0 \<le> S ! i ! j \<and> S ! i ! j \<le> 1)"
    using S by simp
qed


theorem C7_range_witness:
  "fst (salience dijkstra path3 ''weight'' path3_store) = Inr path3_salience \<and>
   fst (salience_unw bfs path3 path3_store) = Inr path3_salience \<and>
   0 \<le> path3_salience ! 1 ! 2 \<and> path3_salience ! 1 ! 2 \<le> 1"
proof -
  have "\<forall>i<length (nodes path3). \<forall>j<length (nodes path3).
          0 \<le> path3_salience ! i ! j \<and> path3_salience ! i ! j \<le> 1"
    using C7_range[of dijkstra path3 "''weight''" path3_store path3_salience bfs]
      path3_salience_w path3_salience_unw by blast
  moreover have "1 < length (nodes path3)" "2 < length (nodes path3)" by (simp_all add: path3_def)
  ultimately have "0 \<le> path3_salience ! 1 ! 2 \<and> path3_salience ! 1 ! 2 \<le> 1" by blast
  then show ?thesis using path3_salience_w path3_salience_unw by simp
qed

section \<open>The caller's graph\<close>

text \<open>
  C9. A call of \<open>salience\<close>, weighted or unweighted, leaves every attribute dictionary
  that existed before the call as it was, whether the call returns or raises: the
  \<open>proximity\<close> attribute is written to the dictionaries of the relabelled copy, which
  are new. The nodes and the edges of the argument are values of the model; the source
  has no statement that adds or removes one.
\<close>

theorem C9_store_unchanged:
  "take (length h) (snd (salience sp G weight h)) = h \<and>
   take (length h) (snd (salience_unw sp' G h)) = h"
  by (simp add: salience_store salience_unw_store)


section \<open>Symmetry\<close>

text \<open>
  C1. The salience matrix is claimed symmetric in both variants, the tree builder setting
  both \<open>matrix[u][v]\<close> and \<open>matrix[v][u]\<close>. The source sets \<open>T[path[i]][path[i+1]]\<close>
  only. On the path graph 0-1-2 both variants return a matrix whose entry (0,1) is 1/3
  and whose entry (1,0) is 2/3.
\<close>

theorem C1_not_symmetric:
  "fst (salience dijkstra path3 ''weight'' path3_store) = Inr path3_salience \<and>
   fst (salience_unw bfs path3 path3_store) = Inr path3_salience \<and>
   path3_salience ! 0 ! 1 = 1/3 \<and> path3_salience ! 1 ! 0 = 2/3"
  using path3_salience_w path3_salience_unw by (simp add: path3_salience_def)

text \<open>
  C3. The matrix of one reference node is claimed symmetric, with entries 0 and 1 and at
  most \<open>N-1\<close> unordered pairs set. For the graph with the single edge (0,1) and the
  reference node 0 both variants return the matrix with the entry (0,1) set and the
  entry (1,0) not set.
\<close>

theorem C3_tree_not_symmetric:
  "fst (SPT dijkstra path2 0 ''weight'' [[(''weight'', PyInt 1)]]) = Inr [[0, 1], [0, 0]] \<and>
   fst (SPT_unw bfs path2 0 [[(''weight'', PyInt 1)]]) = Inr [[0, 1], [0, 0]]"
  by code_simp

section \<open>Failures\<close>

text \<open>
  C8, as stated: a directed graph or a multigraph makes the call fail before anything is
  computed. A directed graph without nodes is a counterexample: the check sits in
  \<open>_SPT\<close>, which is never called, and both variants return the empty matrix.
\<close>

theorem C8_counterexample:
  "directed empty_digraph \<and>
   fst (salience dijkstra empty_digraph ''weight'' []) = Inr [] \<and>
   fst (salience_unw bfs empty_digraph []) = Inr []"
  by code_simp

text \<open>
  C8, amended: for a directed graph or a multigraph with at least one node, both variants
  raise NetworkXNotImplemented. It is raised by the first call of \<open>_SPT\<close>, before that
  call relabels the graph, allocates its matrix or searches paths (the store is returned
  as it was given, whatever the search is); \<open>salience\<close> itself has relabelled the graph
  by then, and the store holds the dictionaries of that copy.
\<close>

theorem C8_unsupported_graph:
  assumes "directed G \<or> multigraph G" and "nodes G \<noteq> []"
  shows "salience sp G weight h = (Inl NetworkXNotImplemented, h @ copied_attrs G h) \<and>
         salience_unw sp' G h = (Inl NetworkXNotImplemented, h @ copied_attrs G h) \<and>
         SPT sp G r weight h = (Inl NetworkXNotImplemented, h) \<and>
         SPT_unw sp' G r h = (Inl NetworkXNotImplemented, h)"
proof -
  from assms(2) obtain n ns where ns: "relabelled_nodes G = n # ns"
    using relabelled_nodes_Cons by blast
  have a: "\<And>r h. SPT sp G r weight h = (Inl NetworkXNotImplemented, h)"
    using assms(1) by (auto simp: SPT_def)
  have b: "\<And>r h. SPT_unw sp' G r h = (Inl NetworkXNotImplemented, h)"
    using assms(1) by (auto simp: SPT_unw_def)
  have "salience sp G weight h = (Inl NetworkXNotImplemented, h @ copied_attrs G h)"
    by (simp add: salience_def Let_def split_beta ns a)
  moreover have "salience_unw sp' G h = (Inl NetworkXNotImplemented, h @ copied_attrs G h)"
    by (simp add: salience_unw_def Let_def split_beta ns b)
  ultimately show ?thesis using a b by simp
qed

theorem C8_unsupported_graph_witness:
  "(directed one_node_digraph \<or> multigraph one_node_digraph) \<and> nodes one_node_digraph \<noteq> [] \<and>
   salience dijkstra one_node_digraph ''weight'' [[(''weight'', PyInt 1)]]
     = (Inl NetworkXNotImplemented, [[(''weight'', PyInt 1)], [(''weight'', PyInt 1)]]) \<and>
   salience_unw bfs one_node_digraph [[(''weight'', PyInt 1)]]
     = (Inl NetworkXNotImplemented, [[(''weight'', PyInt 1)], [(''weight'', PyInt 1)]])"
proof -
  have d: "directed one_node_digraph \<or> multigraph one_node_digraph" by (simp add: one_node_digraph_def)
  have n: "nodes one_node_digraph \<noteq> []" by (simp add: one_node_digraph_def)
  have c: "copied_attrs one_node_digraph [[(''weight'', PyInt 1)]] = [[(''weight'', PyInt 1)]]"
    by (simp add: copied_attrs_def one_node_digraph_def attrs_at_def)
  show ?thesis
    using C8_unsupported_graph[OF d n, of dijkstra "''weight''" "[[(''weight'', PyInt 1)]]" bfs 0] d n c
    by simp
qed

text \<open>
  C4, as stated: an edge whose weight equals 0 makes the weighted variant fail with
  InvalidWeight, while the reciprocal is computed. Four graphs show what the source does
  instead: a NumPy zero does not raise (its reciprocal is \<open>inf\<close>) and a matrix is returned;
  an edge without the attribute, or with an \<open>int\<close> too large for a float, that is
  enumerated before the zero raises KeyError or OverflowError; a directed graph raises
  NetworkXNotImplemented.
\<close>

theorem C4_counterexample:
  "fst (salience dijkstra path2 ''weight'' numpy_zero_store) = Inr [[0, 1/2], [1/2, 0]] \<and>
   fst (salience dijkstra path3 ''weight'' missing_weight_store) = Inl KeyError \<and>
   fst (salience dijkstra path3 ''weight'' huge_weight_store) = Inl OverflowError \<and>
   fst (salience dijkstra one_node_digraph ''weight'' zero_digraph_store) = Inl NetworkXNotImplemented"
  by code_simp

text \<open>
  C4, amended: in the weighted variant, for an undirected graph that is no multigraph (and
  has a node, as every graph with an edge has): if an edge has a Python \<open>int\<close> or \<open>float\<close>
  weight equal to 0 and the reciprocal of the weight of every edge enumerated before it is
  computed without raising, the call raises ZeroDivisionError, whatever the shortest-path
  search is: the search is not reached and no matrix is returned. The same holds for
  every call of \<open>_SPT\<close>.
\<close>

theorem C4_zero_weight:
  assumes "\<not> directed G" and "\<not> multigraph G" and "nodes G \<noteq> []"
    and "edges G = pre @ (u, v, a) # post"
    and "list_all (\<lambda>(u, v, a). \<exists>p. edge_proximity weight (attrs_at h a) = Inr p) pre"
    and "map_of (attrs_at h a) weight = Some z" and "z = PyInt 0 \<or> z = PyFloat 0"
  shows "fst (salience sp G weight h) = Inl ZeroDivisionError \<and>
         fst (SPT sp G r weight h) = Inl ZeroDivisionError"
proof -
  have z: "edge_proximity weight (attrs_at h a) = Inl ZeroDivisionError"
    using assms(6,7) by (auto simp: edge_proximity_def reciprocal_def float_overflows_def)
  have wc: "weights_check weight (copied_attrs G (h @ xs)) = Some ZeroDivisionError" for xs
    using assms(4,5,6) z by (rule weights_check_copied)
  have a: "fst (SPT sp G r weight h) = Inl ZeroDivisionError" for r
    using assms(1,2) wc[of "[]"] by (intro SPT_weights_error) simp_all
  have b: "fst (SPT sp G r weight (h @ copied_attrs G h)) = Inl ZeroDivisionError" for r
    using assms(1,2) wc by (rule SPT_weights_error)
  from assms(3) obtain n ns where ns: "relabelled_nodes G = n # ns"
    using relabelled_nodes_Cons by blast
  obtain x h2 where st: "SPT sp G n weight (h @ copied_attrs G h) = (x, h2)"
    by (cases "SPT sp G n weight (h @ copied_attrs G h)")
  with b[of n] have "x = Inl ZeroDivisionError" by simp
  with st have "fst (salience sp G weight h) = Inl ZeroDivisionError"
    by (simp add: salience_def Let_def split_beta ns)
  with a show ?thesis by simp
qed

theorem C4_zero_weight_witness:
  "\<not> directed path3 \<and> \<not> multigraph path3 \<and> nodes path3 \<noteq> [] \<and>
   edges path3 = [(0, 1, 0)] @ (1, 2, 1) # [] \<and>
   map_of (attrs_at zero_weight_store 1) ''weight'' = Some (PyFloat 0) \<and>
   fst (salience dijkstra path3 ''weight'' zero_weight_store) = Inl ZeroDivisionError"
proof -
  have a: "\<not> directed path3" "\<not> multigraph path3" "nodes path3 \<noteq> []"
    by (simp_all add: path3_def)
  have b: "edges path3 = [(0, 1, 0)] @ (1, 2, 1) # []" by (simp add: path3_def)
  have c: "list_all (\<lambda>(u, v, a). \<exists>p. edge_proximity ''weight'' (attrs_at zero_weight_store a) = Inr p) [(0::nat, 1::nat, 0)]"
    by (simp add: zero_weight_store_def attrs_at_def edge_proximity_def reciprocal_def float_overflows_def)
  have d: "map_of (attrs_at zero_weight_store 1) ''weight'' = Some (PyFloat 0)"
    by (simp add: zero_weight_store_def attrs_at_def)
  have e: "PyFloat 0 = PyInt 0 \<or> PyFloat 0 = PyFloat 0" by simp
  show ?thesis
    using C4_zero_weight[OF a b c d e, of dijkstra 0] a b d by simp
qed

text \<open>
  C10. \<open>salience\<close> never raises NodeNotFound, in either variant and whatever the search:
  the relabelling inside \<open>salience\<close> and the one inside \<open>_SPT\<close> give the same nodes,
  whatever the store, so every reference node that \<open>salience\<close> passes on is a node of
  the graph that \<open>_SPT\<close> searches. For a graph with distinct nodes these are
  \<open>0..N-1\<close>, and the relabelling is a bijection between the nodes and \<open>0..N-1\<close>.
\<close>

theorem C10_reference_nodes_valid:
  "fst (salience sp G weight h) \<noteq> Inl NodeNotFound \<and>
   fst (salience_unw sp' G h) \<noteq> Inl NodeNotFound \<and>
   nodes (fst (convert_node_labels_to_integers G h)) = nodes (fst (convert_node_labels_to_integers G h')) \<and>
   (distinct (nodes G) \<longrightarrow>
      nodes (fst (convert_node_labels_to_integers G h)) = [0..<length (nodes G)] \<and>
      bij_betw (node_label (nodes G)) (set (nodes G)) {0..<length (nodes G)})"
proof (intro conjI impI)
  show "fst (salience sp G weight h) \<noteq> Inl NodeNotFound"
    using salience_error[of sp G weight h NodeNotFound] SPT_NodeNotFound[of sp G _ weight] by blast
  show "fst (salience_unw sp' G h) \<noteq> Inl NodeNotFound"
    using salience_unw_error[of sp' G h NodeNotFound] SPT_unw_NodeNotFound[of sp' G] by blast
  show "nodes (fst (convert_node_labels_to_integers G h)) = nodes (fst (convert_node_labels_to_integers G h'))"
    by simp
next
  assume d: "distinct (nodes G)"
  then have m: "map (node_label (nodes G)) (nodes G) = [0..<length (nodes G)]"
    by (rule relabelled_nodes_distinct)
  then show "nodes (fst (convert_node_labels_to_integers G h)) = [0..<length (nodes G)]"
    by (simp add: relabelled_nodes_def)
  have "distinct (map (node_label (nodes G)) (nodes G))" using m by simp
  then have "inj_on (node_label (nodes G)) (set (nodes G))" by (simp add: distinct_map)
  moreover have "node_label (nodes G) ` set (nodes G) = {0..<length (nodes G)}"
    using m by (metis atLeastLessThan_upt set_map)
  ultimately show "bij_betw (node_label (nodes G)) (set (nodes G)) {0..<length (nodes G)}"
    by (simp add: bij_betw_def)
qed

theorem C10_reference_nodes_valid_witness:
  "distinct (nodes abc_graph) \<and>
   nodes (fst (convert_node_labels_to_integers abc_graph path3_store)) = [0, 1, 2] \<and>
   fst (salience dijkstra abc_graph ''weight'' path3_store) = Inr path3_salience \<and>
   fst (salience dijkstra abc_graph ''weight'' path3_store) \<noteq> Inl NodeNotFound \<and>
   fst (salience_unw bfs abc_graph path3_store) \<noteq> Inl NodeNotFound"
proof -
  have d: "distinct (nodes abc_graph)" by (simp add: abc_graph_def)
  have e: "fst (salience dijkstra abc_graph ''weight'' path3_store) = Inr path3_salience" by code_simp
  have "nodes (fst (convert_node_labels_to_integers abc_graph path3_store)) = [0..<length (nodes abc_graph)]"
    using C10_reference_nodes_valid[of dijkstra abc_graph "''weight''" path3_store bfs path3_store] d
    by blast
  moreover have "[0..<length (nodes abc_graph)] = [0, 1, 2]" by (simp add: abc_graph_def upt_rec)
  ultimately show ?thesis
    using C10_reference_nodes_valid[of dijkstra abc_graph "''weight''" path3_store bfs path3_store] d e
    by simp
qed

section \<open>Small graphs\<close>

text \<open>
  C5, as stated: the division by \<open>N\<close> is explicitly guarded and never divides by zero. The
  source has no guard: for the graph without nodes both variants evaluate \<open>1.*S/N\<close> with
  \<open>N = 0\<close>.
\<close>

theorem C5_counterexample:
  "salience_divisions dijkstra empty_graph ''weight'' [] = [0] \<and>
   salience_unw_divisions bfs empty_graph [] = [0]"
  by code_simp

text \<open>
  C5, amended: for a graph without nodes both variants return the matrix without rows;
  the division \<open>1.*S/N\<close> is evaluated with \<open>N = 0\<close>, on an array that has no entry to
  divide. For an undirected graph with one node and no edge both return the 1 x 1 zero
  matrix, with the breadth-first search and Dijkstra's algorithm as modelled above and
  with any other search that returns paths along edges.
\<close>

theorem C5_small_graphs:
  "(nodes G = [] \<longrightarrow>
      fst (salience sp G weight h) = Inr [] \<and> fst (salience_unw sp' G h) = Inr [] \<and>
      salience_divisions sp G weight h = [0] \<and> salience_unw_divisions sp' G h = [0]) \<and>
   (length (nodes G) = 1 \<and> \<not> directed G \<and> \<not> multigraph G \<and> edges G = [] \<longrightarrow>
      fst (salience dijkstra G weight h) = Inr [[0]] \<and> fst (salience_unw bfs G h) = Inr [[0]] \<and>
      salience_divisions dijkstra G weight h = [1] \<and> salience_unw_divisions bfs G h = [1]) \<and>
   (length (nodes G) = 1 \<and> \<not> directed G \<and> \<not> multigraph G \<and> edges G = [] \<and>
    sp [0] [] 0 = Some ps \<and> walks [] ps \<and> sp' [0] [] 0 = Some ps' \<and> walks [] ps' \<longrightarrow>
      fst (salience sp G weight h) = Inr [[0]] \<and> fst (salience_unw sp' G h) = Inr [[0]] \<and>
      salience_divisions sp G weight h = [1] \<and> salience_unw_divisions sp' G h = [1])"
proof -
  have s: "dijkstra [0] [] 0 = Some [(0, [0])] \<and> walks [] [(0, [0])] \<and>
      bfs [0] [] 0 = Some [(0, [0])] \<and> walks [] [(0, [0])]"
    by (simp add: dijkstra_def bfs_def walks_def weighted_neighbours_def neighbours_def)
  show ?thesis
    using small_graphs_any_search[of G sp weight h sp' ps ps']
      small_graphs_any_search[of G dijkstra weight h bfs "[(0, [0])]" "[(0, [0])]"] s
    by blast
qed

theorem C5_small_graphs_witness:
  "nodes empty_graph = [] \<and>
   fst (salience dijkstra empty_graph ''weight'' []) = Inr [] \<and>
   fst (salience_unw bfs empty_graph []) = Inr [] \<and>
   salience_divisions dijkstra empty_graph ''weight'' [] = [0] \<and>
   salience_unw_divisions bfs empty_graph [] = [0] \<and>
   length (nodes one_node_graph) = 1 \<and> \<not> directed one_node_graph \<and> \<not> multigraph one_node_graph \<and>
   edges one_node_graph = [] \<and>
   dijkstra [0] [] 0 = Some [(0, [0])] \<and> walks [] [(0, [0])] \<and>
   bfs [0] [] 0 = Some [(0, [0])] \<and> walks [] [(0, [0])] \<and>
   fst (salience dijkstra one_node_graph ''weight'' []) = Inr [[0]] \<and>
   fst (salience_unw bfs one_node_graph []) = Inr [[0]]"
proof -
  have e: "nodes empty_graph = []" by (simp add: empty_graph_def)
  have o: "length (nodes one_node_graph) = 1 \<and> \<not> directed one_node_graph \<and> \<not> multigraph one_node_graph \<and>
      edges one_node_graph = [] \<and>
      dijkstra [0] [] 0 = Some [(0, [0])] \<and> walks [] [(0, [0])] \<and>
      bfs [0] [] 0 = Some [(0, [0])] \<and> walks [] [(0, [0])]"
    by (simp add: one_node_graph_def dijkstra_def bfs_def walks_def weighted_neighbours_def neighbours_def)
  show ?thesis
    using C5_small_graphs[where G = empty_graph and sp = dijkstra and weight = "''weight''"
        and h = "[]" and sp' = bfs and ps = "[(0, [0])]" and ps' = "[(0, [0])]"]
      C5_small_graphs[where G = one_node_graph and sp = dijkstra and weight = "''weight''"
        and h = "[]" and sp' = bfs and ps = "[(0, [0])]" and ps' = "[(0, [0])]"] e o
    by simp
qed

section \<open>Pairs that are no edges\<close>

text \<open>
  C6. The entry \<open>(i, j)\<close> of a salience matrix that is returned is 0 for every pair of
  indices that is not an edge of the relabelled graph, in either direction: with the
  breadth-first search and with Dijkstra's algorithm as modelled above, and with any
  other search that returns paths along the edges of the relabelled graph (for the
  weighted variant then, every edge has its dictionary in the store).
\<close>

theorem C6_zero_on_non_edges:
  assumes "i < length (nodes G)" and "j < length (nodes G)"
    and "(i, j) \<notin> set (relabelled_edges G)" and "(j, i) \<notin> set (relabelled_edges G)"
  shows "(fst (salience dijkstra G weight h) = Inr S \<longrightarrow> S ! i ! j = 0) \<and>
         (fst (salience_unw bfs G h) = Inr S \<longrightarrow> S ! i ! j = 0) \<and>
         (list_all (\<lambda>(u, v, a). a < length h) (edges G) \<and>
          walk_contract sp (relabelled_nodes G) (proximity_graph G weight h) (relabelled_edges G) \<and>
          fst (salience sp G weight h) = Inr S \<longrightarrow> S ! i ! j = 0) \<and>
         (walk_contract sp' (relabelled_nodes G) (relabelled_edges G) (relabelled_edges G) \<and>
          fst (salience_unw sp' G h) = Inr S \<longrightarrow> S ! i ! j = 0)"
proof (intro conjI)
  show "fst (salience dijkstra G weight h) = Inr S \<longrightarrow> S ! i ! j = 0"
    using zero_entry_dijkstra[OF assms] by blast
  show "fst (salience_unw bfs G h) = Inr S \<longrightarrow> S ! i ! j = 0"
    using zero_entry_any_search[OF assms, of h sp weight S bfs] walk_contract_bfs by blast
  show "list_all (\<lambda>(u, v, a). a < length h) (edges G) \<and>
          walk_contract sp (relabelled_nodes G) (proximity_graph G weight h) (relabelled_edges G) \<and>
          fst (salience sp G weight h) = Inr S \<longrightarrow> S ! i ! j = 0"
    using zero_entry_any_search[OF assms, of h sp weight S sp'] by blast
  show "walk_contract sp' (relabelled_nodes G) (relabelled_edges G) (relabelled_edges G) \<and>
          fst (salience_unw sp' G h) = Inr S \<longrightarrow> S ! i ! j = 0"
    using zero_entry_any_search[OF assms, of h sp weight S sp'] by blast
qed

theorem C6_zero_on_non_edges_witness:
  "0 < length (nodes path3) \<and> 2 < length (nodes path3) \<and>
   (0, 2) \<notin> set (relabelled_edges path3) \<and> (2, 0) \<notin> set (relabelled_edges path3) \<and>
   list_all (\<lambda>(u, v, a). a < length path3_store) (edges path3) \<and>
   walk_contract dijkstra (relabelled_nodes path3) (proximity_graph path3 ''weight'' path3_store)
     (relabelled_edges path3) \<and>
   walk_contract bfs (relabelled_nodes path3) (relabelled_edges path3) (relabelled_edges path3) \<and>
   fst (salience dijkstra path3 ''weight'' path3_store) = Inr path3_salience \<and>
   fst (salience_unw bfs path3 path3_store) = Inr path3_salience \<and>
   path3_salience ! 0 ! 2 = 0"
proof -
  have a: "0 < length (nodes path3)" "2 < length (nodes path3)" by (simp_all add: path3_def)
  have b: "(0, 2) \<notin> set (relabelled_edges path3)" "(2, 0) \<notin> set (relabelled_edges path3)"
    by (simp_all add: relabelled_edges_def path3_def node_label_def)
  have c: "list_all (\<lambda>(u, v, a). a < length path3_store) (edges path3)"
    by (simp add: path3_def path3_store_def)
  have d: "walk_contract dijkstra (relabelled_nodes path3) (proximity_graph path3 ''weight'' path3_store)
     (relabelled_edges path3)" by code_simp
  have e: "walk_contract bfs (relabelled_nodes path3) (relabelled_edges path3) (relabelled_edges path3)"
    by code_simp
  show ?thesis
    using C6_zero_on_non_edges[OF a b, where h = path3_store and weight = "''weight''"
        and S = path3_salience and sp = dijkstra and sp' = bfs]
      a b c d e path3_salience_w path3_salience_unw by simp
qed

end
